theory Spec2Isabelle
  imports Main "HOL-Library.Monad_Syntax"
begin

section \<open>The tree model of \<^verbatim>\<open>src/controls/tree_view.hpp\<close>\<close>

text \<open>
  The C++ tree is a graph of heap objects: every \<^verbatim>\<open>TreeNode<T>\<close> holds a raw pointer to
  its parent and a vector of raw pointers to its children, and the operations mutate the
  nodes in place. The embedding keeps that shape. A pointer is an address (a natural
  number), a nullable pointer is an \<open>option\<close>, and the heap maps every address to the
  node object stored there. A traversal cannot be structurally recursive on such a heap
  (nothing in the types excludes a cycle), so \<open>descend\<close> takes fuel; a result \<open>None\<close>
  stands for a run that does not return a value: fuel exhausted, or a step that is
  undefined behaviour in C++ (null dereference, iterator out of range, failed assertion).
\<close>

subsection \<open>Data\<close>

text \<open>\<^verbatim>\<open>BinarySearchData\<close>: two \<^verbatim>\<open>u64\<close> fields (the struct is declared outside the two
  source files; its fields are read off the uses \<^verbatim>\<open>bs_data.position\<close>,
  \<^verbatim>\<open>bs_data.length\<close> and \<^verbatim>\<open>BinarySearchData{scroll_offset, (u64)h}\<close>).\<close>

record BinarySearchData =
  position :: nat
  length' :: nat

text \<open>\<^verbatim>\<open>TreeNode<T>\<close>. Of a cell (\<^verbatim>\<open>Drawable*\<close>) the model keeps what the tree engine
  reads from it, the height of its size hint; \<open>hidden\<close> is the backing datum.\<close>

record 'k TreeNode =
  columns :: "int list"
  hidden :: 'k
  parent :: "nat option"
  parent_index :: int
  children :: "nat list"
  is_collapsed :: bool
  max_cell_height :: int
  depth :: int
  bs_data :: BinarySearchData

type_synonym 'k heap = "nat \<Rightarrow> 'k TreeNode"

datatype Traversal = Continue | Next | Break

text \<open>\<^verbatim>\<open>Tree<T>\<close> has one member, the vector of roots. The node objects live in
  the heap, so an operation of the tree works on a pair of the heap and the tree.\<close>

record Tree =
  roots :: "nat list"

text \<open>A freshly constructed node (\<^verbatim>\<open>TreeNode(columns, hidden)\<close>) with the member
  initialisers of the class.\<close>

definition new_node :: "int list \<Rightarrow> 'k \<Rightarrow> 'k TreeNode" where
  "new_node cols hid =
     \<lparr>columns = cols, hidden = hid, parent = None, parent_index = - 1, children = [],
      is_collapsed = False, max_cell_height = 0, depth = 0,
      bs_data = \<lparr>position = 0, length' = 0\<rparr>\<rparr>"

subsection \<open>Machine integers\<close>

definition u64 :: "int \<Rightarrow> nat" where
  "u64 x = nat (x mod 2 ^ 64)"

definition cast_i32 :: "int \<Rightarrow> int" where
  "cast_i32 x = (x + 2 ^ 31) mod 2 ^ 32 - 2 ^ 31"

text \<open>\<^verbatim>\<open>v.size() - 1\<close> computed in \<^verbatim>\<open>u64\<close> and stored in, or cast to, an \<^verbatim>\<open>i32\<close>.\<close>

definition last_index_i32 :: "'a list \<Rightarrow> int" where
  "last_index_i32 v = cast_i32 (int (u64 (int (length v) - 1)))"

subsection \<open>Traversal\<close>

text \<open>A visitor is the \<^verbatim>\<open>std::function<Traversal(TreeNode<T>*)>\<close> with the variables its
  lambda captures by reference made explicit: it reads and writes the heap and a value
  of type \<open>'a\<close> (the captured locals). \<open>None\<close> is undefined behaviour inside the
  visitor.\<close>

type_synonym ('k, 'a) visitor = "nat \<Rightarrow> 'k heap \<times> 'a \<Rightarrow> (Traversal \<times> 'k heap \<times> 'a) option"

text \<open>The loop \<^verbatim>\<open>for (child : v) { last = d(early_exit, child); if (early_exit == Break) ... }\<close>
  that both \<^verbatim>\<open>descend\<close> and \<^verbatim>\<open>forEachNode\<close> run. The state carries \<^verbatim>\<open>early_exit\<close> first.
  The vector is read when the loop starts; no visitor of this file changes a vector
  while a loop runs over it.\<close>

fun each_node ::
  "('x \<Rightarrow> Traversal \<times> 's \<Rightarrow> (nat option \<times> Traversal \<times> 's) option) \<Rightarrow>
   'x list \<Rightarrow> nat option \<times> Traversal \<times> 's \<Rightarrow> (nat option \<times> Traversal \<times> 's) option" where
  "each_node d [] ls = Some ls"
| "each_node d (c # cs) (lst, s) =
     (case d c s of
        None \<Rightarrow> None
      | Some (lst', s') \<Rightarrow>
          if fst s' = Break then Some (lst', s') else each_node d cs (lst', s'))"

text \<open>The block \<^verbatim>\<open>if (fn) { early_exit = fn(root); if (Break or Next) return root; }\<close> that
  opens \<^verbatim>\<open>descend\<close>: whether the function returns there, and the state after the block.\<close>

definition visit ::
  "('k, 'a) visitor option \<Rightarrow> nat \<Rightarrow> Traversal \<times> 'k heap \<times> 'a \<Rightarrow>
   (bool \<times> Traversal \<times> 'k heap \<times> 'a) option" where
  "visit fn root s =
     (case fn of
        None \<Rightarrow> Some (False, s)
      | Some f \<Rightarrow>
          (case f root (snd s) of
             None \<Rightarrow> None
           | Some (e, hs) \<Rightarrow> Some (e = Break \<or> e = Next, (e, hs))))"

text \<open>\<^verbatim>\<open>Tree::descend(early_exit, root, fn)\<close>; the first argument is the fuel.\<close>

primrec descend ::
  "nat \<Rightarrow> ('k, 'a) visitor option \<Rightarrow> nat \<Rightarrow> Traversal \<times> 'k heap \<times> 'a \<Rightarrow>
   (nat option \<times> Traversal \<times> 'k heap \<times> 'a) option" where
  "descend 0 fn root s = None"
| "descend (Suc k) fn root s =
     (case visit fn root s of
        None \<Rightarrow> None
      | Some (return_early, s') \<Rightarrow>
          if return_early then Some (Some root, s')
          else if children (fst (snd s') root) \<noteq> []
          then each_node (descend k fn) (children (fst (snd s') root)) (None, s')
          else Some (Some root, s'))"

text \<open>\<^verbatim>\<open>Tree::forEachNode(roots, fn)\<close>.\<close>

definition forEachNode ::
  "nat \<Rightarrow> nat list \<Rightarrow> ('k, 'a) visitor option \<Rightarrow> 'k heap \<times> 'a \<Rightarrow> ('k heap \<times> 'a) option" where
  "forEachNode fuel rts fn hs =
     map_option (\<lambda>(lst, e, hs'). hs') (each_node (descend fuel fn) rts (None, Continue, hs))"

subsection \<open>Depth and position index\<close>

text \<open>The lambda of \<^verbatim>\<open>_updateDepth\<close>; the captured local is \<^verbatim>\<open>depth\<close>. The second test
  dereferences \<^verbatim>\<open>_node->parent\<close>.\<close>

definition updateDepth_visitor :: "('k, int) visitor" where
  "updateDepth_visitor n = (\<lambda>(h, d).
     if parent_index (h n) = 0
     then Some (Continue, h(n := (h n)\<lparr>depth := d + 1\<rparr>), d + 1)
     else (case parent (h n) of
             None \<Rightarrow> None
           | Some p \<Rightarrow>
               if parent_index (h n) = last_index_i32 (children (h p))
               then Some (Continue, h(n := (h n)\<lparr>depth := d\<rparr>), d - 1)
               else Some (Continue, h(n := (h n)\<lparr>depth := d\<rparr>), d)))"

text \<open>\<^verbatim>\<open>Tree::_updateDepth(parent, node)\<close>.\<close>

definition updateDepth :: "nat \<Rightarrow> nat option \<Rightarrow> nat \<Rightarrow> 'k heap \<Rightarrow> 'k heap option" where
  "updateDepth fuel par node h =
     (case par of
        None \<Rightarrow>
          if depth (h node) \<noteq> 1
          then (let h1 = h(node := (h node)\<lparr>depth := 1\<rparr>)
                in map_option fst
                     (forEachNode fuel (children (h1 node)) (Some updateDepth_visitor) (h1, 1)))
          else Some h
      | Some p \<Rightarrow>
          if depth (h node) \<noteq> depth (h p) + 1
          then (let h1 = h(node := (h node)\<lparr>depth := depth (h p) + 1\<rparr>)
                in map_option fst
                     (forEachNode fuel (children (h1 node)) (Some updateDepth_visitor)
                        (h1, depth (h1 node))))
          else Some h)"

text \<open>The lambda of \<^verbatim>\<open>_updateBSData\<close>; the captured local is the \<^verbatim>\<open>u64 position\<close>.\<close>

definition updateBSData_visitor :: "('k, nat) visitor" where
  "updateBSData_visitor n = (\<lambda>(h, pos).
     Some (Continue,
           h(n := (h n)\<lparr>bs_data := (bs_data (h n))\<lparr>position := pos\<rparr>\<rparr>),
           (pos + length' (bs_data (h n))) mod 2 ^ 64))"

text \<open>\<^verbatim>\<open>Tree::_updateBSData()\<close>: the new heap and the returned position.\<close>

definition updateBSData :: "nat \<Rightarrow> nat list \<Rightarrow> 'k heap \<Rightarrow> ('k heap \<times> nat) option" where
  "updateBSData fuel rts h = forEachNode fuel rts (Some updateBSData_visitor) (h, 0)"

subsection \<open>Mutation\<close>

text \<open>\<^verbatim>\<open>Tree::append(parent, node)\<close>.\<close>

definition Tree_append ::
  "nat \<Rightarrow> nat option \<Rightarrow> nat \<Rightarrow> 'k heap \<times> Tree \<Rightarrow> (nat \<times> 'k heap \<times> Tree) option" where
  "Tree_append fuel par node = (\<lambda>(h, t).
     (case par of
        None \<Rightarrow>
          (let h1 = h(node := (h node)\<lparr>parent := None\<rparr>);
               t1 = t\<lparr>roots := roots t @ [node]\<rparr>;
               h2 = h1(node := (h1 node)\<lparr>parent_index := last_index_i32 (roots t1)\<rparr>)
           in do {
                h3 \<leftarrow> updateDepth fuel par node h2;
                (h4, pos) \<leftarrow> updateBSData fuel (roots t1) h3;
                Some (node, h4, t1)
              })
      | Some p \<Rightarrow>
          (let h1 = h(p := (h p)\<lparr>children := children (h p) @ [node]\<rparr>);
               h2 = h1(node := (h1 node)\<lparr>parent_index := last_index_i32 (children (h1 p))\<rparr>);
               h3 = h2(node := (h2 node)\<lparr>parent := Some p\<rparr>)
           in do {
                h4 \<leftarrow> updateDepth fuel par node h3;
                (h5, pos) \<leftarrow> updateBSData fuel (roots t) h4;
                Some (node, h5, t)
              })))"

text \<open>The loop \<^verbatim>\<open>for (u64 i = first; i < v.size(); i++) v[i]->parent_index = i;\<close> of
  \<^verbatim>\<open>insert\<close>.\<close>

definition renumber_from :: "nat \<Rightarrow> nat list \<Rightarrow> 'k heap \<Rightarrow> 'k heap" where
  "renumber_from first v h =
     fold (\<lambda>i h'. h'(v ! i := (h' (v ! i))\<lparr>parent_index := cast_i32 (int i)\<rparr>))
       [first ..< length v] h"

text \<open>\<^verbatim>\<open>v.insert(v.begin() + index, node)\<close>; an iterator past the end is undefined.\<close>

definition vector_insert :: "nat \<Rightarrow> 'a \<Rightarrow> 'a list \<Rightarrow> 'a list option" where
  "vector_insert index x v =
     (if index \<le> length v then Some (take index v @ x # drop index v) else None)"

text \<open>\<^verbatim>\<open>Tree::insert(parent, index, node)\<close>.\<close>

definition Tree_insert ::
  "nat \<Rightarrow> nat option \<Rightarrow> nat \<Rightarrow> nat \<Rightarrow> 'k heap \<times> Tree \<Rightarrow> (nat \<times> 'k heap \<times> Tree) option" where
  "Tree_insert fuel par index node = (\<lambda>(h, t).
     (case par of
        None \<Rightarrow>
          (let h1 = h(node := (h node)\<lparr>parent := None\<rparr>);
               h2 = h1(node := (h1 node)\<lparr>depth := 1\<rparr>)
           in do {
                rs \<leftarrow> vector_insert index node (roots t);
                let t1 = t\<lparr>roots := rs\<rparr>;
                let h3 = h2(node := (h2 node)\<lparr>parent_index := cast_i32 (int index)\<rparr>);
                let h4 = renumber_from (index + 1) (roots t1) h3;
                h5 \<leftarrow> updateDepth fuel par node h4;
                (h6, pos) \<leftarrow> updateBSData fuel (roots t1) h5;
                Some (node, h6, t1)
              })
      | Some p \<Rightarrow>
          do {
            cs \<leftarrow> vector_insert index node (children (h p));
            let h1 = h(p := (h p)\<lparr>children := cs\<rparr>);
            let h2 = h1(node := (h1 node)\<lparr>parent_index := cast_i32 (int index)\<rparr>);
            let h3 = h2(node := (h2 node)\<lparr>parent := Some p\<rparr>);
            let h4 = renumber_from (index + 1) (children (h3 p)) h3;
            h5 \<leftarrow> updateDepth fuel par node h4;
            (h6, pos) \<leftarrow> updateBSData fuel (roots t) h5;
            Some (node, h6, t)
          }))"

text \<open>\<^verbatim>\<open>v.erase(v.begin() + i)\<close> for an \<^verbatim>\<open>i32 i\<close>; the iterator must point at an
  element.\<close>

definition vector_erase :: "int \<Rightarrow> 'a list \<Rightarrow> 'a list option" where
  "vector_erase i v =
     (if 0 \<le> i \<and> i < int (length v) then Some (take (nat i) v @ drop (Suc (nat i)) v)
      else None)"

text \<open>The loop \<^verbatim>\<open>for (i32 i = first; i < cast(i32, v.size()); i++) v[i]->parent_index--;\<close> of
  \<^verbatim>\<open>remove\<close>; it is entered with \<open>0 \<le> first\<close>, the erase before it having succeeded.\<close>

definition decrement_from :: "int \<Rightarrow> nat list \<Rightarrow> 'k heap \<Rightarrow> 'k heap" where
  "decrement_from first v h =
     fold (\<lambda>i h'. h'(v ! i := (h' (v ! i))\<lparr>parent_index := parent_index (h' (v ! i)) - 1\<rparr>))
       [nat first ..< nat (cast_i32 (int (length v)))] h"

text \<open>\<^verbatim>\<open>Tree::remove(node)\<close>.\<close>

definition Tree_remove ::
  "nat \<Rightarrow> nat option \<Rightarrow> 'k heap \<times> Tree \<Rightarrow> (nat option \<times> 'k heap \<times> Tree) option" where
  "Tree_remove fuel node = (\<lambda>(h, t).
     (case node of
        None \<Rightarrow> Some (None, h, t)
      | Some n \<Rightarrow>
          do {
            (h4, t1) \<leftarrow>
              (case parent (h n) of
                 Some p \<Rightarrow> do {
                   cs \<leftarrow> vector_erase (parent_index (h n)) (children (h p));
                   let h1 = h(p := (h p)\<lparr>children := cs\<rparr>);
                   let h2 = decrement_from (parent_index (h1 n)) (children (h1 p)) h1;
                   let h3 = h2(n := (h2 n)\<lparr>parent := None\<rparr>);
                   Some (h3(n := (h3 n)\<lparr>parent_index := - 1\<rparr>), t)
                 }
               | None \<Rightarrow> do {
                   rs \<leftarrow> vector_erase (parent_index (h n)) (roots t);
                   let t1 = t\<lparr>roots := rs\<rparr>;
                   Some (decrement_from (parent_index (h n)) (roots t1) h, t1)
                 });
            (h5, pos) \<leftarrow> updateBSData fuel (roots t1) h4;
            h6 \<leftarrow> updateDepth fuel (parent (h5 n)) n h5;
            Some (Some n, h6, t1)
          }))"

section \<open>The view: \<^verbatim>\<open>Column<T>\<close> and \<^verbatim>\<open>TreeView<T>\<close>\<close>

text \<open>Of the two widget classes the model keeps the state the tree engine reads and
  writes. Rendering, styling, event notification, \<^verbatim>\<open>update()\<close> (a redraw request) and the
  bookkeeping of column widths are outside it; they touch none of the fields kept
  here.\<close>

datatype Sort = Sort_None | Ascending | Descending

text \<open>\<^verbatim>\<open>Column<T>\<close>. The comparator \<^verbatim>\<open>sort_fn\<close> is a predicate on two nodes; as the
  class comment on \<^verbatim>\<open>hidden\<close> and the specification have it, it orders the nodes by their
  backing data, so it is modelled as a predicate on two \<open>hidden\<close> values. \<^verbatim>\<open>m_model\<close> is
  only ever assigned by \<^verbatim>\<open>TreeView::setModel\<close>, to the pointer the view itself holds; the
  model keeps whether it is set. The sort icon is the last child widget of the column.\<close>

record 'k Column =
  sort_fn :: "('k \<Rightarrow> 'k \<Rightarrow> bool) option"
  m_sort :: Sort
  column_has_model :: bool
  m_dragging :: bool
  sort_icon_shown :: bool
  sort_icon_flipped :: bool

datatype DropType = Root | Child | Above | Below

record DropAction =
  drop_node :: "nat option"
  drop_type :: DropType

text \<open>\<^verbatim>\<open>TreeView<T>\<close>. \<^verbatim>\<open>m_model\<close> is an owning pointer to the tree; the columns are the
  child widgets of the view, and \<^verbatim>\<open>m_last_sort\<close>, a pointer to one of them, is an index
  into that vector. Of the two sizes only the heights are kept.\<close>

record 'k TreeView =
  m_model :: "Tree option"
  view_columns :: "'k Column list"
  m_virtual_size_h :: int
  m_children_size_h :: int
  m_virtual_size_changed :: bool
  m_auto_size_columns :: bool
  m_hovered :: "nat option"
  m_cursor :: "nat option"
  m_focused :: "nat list"
  m_event_node :: "nat option"
  m_tree_collapser :: "nat option"
  m_last_sort :: "nat option"
  m_grid_line_width :: int
  drop_action :: DropAction

subsection \<open>Resetting the view\<close>

text \<open>The branch \<^verbatim>\<open>sort == Sort::None\<close> of \<^verbatim>\<open>Column::sort\<close>.\<close>

definition Column_sort_None :: "'k Column \<Rightarrow> 'k Column" where
  "Column_sort_None c =
     (if sort_fn c \<noteq> None
      then c\<lparr>sort_icon_shown := False,
             sort_icon_flipped := (if m_sort c = Descending then \<not> sort_icon_flipped c
                                   else sort_icon_flipped c),
             m_sort := Sort_None\<rparr>
      else c)"

text \<open>\<^verbatim>\<open>TreeView::setModel(model)\<close>. \<^verbatim>\<open>delete m_model\<close> frees the old tree and its nodes;
  the heap of the model does not record freed objects. The call
  \<^verbatim>\<open>m_last_sort->sort(Sort::None)\<close> dereferences \<^verbatim>\<open>m_last_sort\<close>, which has to point at a
  column of the view.\<close>

definition setModel :: "Tree option \<Rightarrow> 'k TreeView \<Rightarrow> 'k TreeView option" where
  "setModel model v =
     (let v1 = v\<lparr>m_model := model\<rparr>;
          v2 = v1\<lparr>view_columns :=
                    map (\<lambda>c. c\<lparr>column_has_model := (model \<noteq> None)\<rparr>) (view_columns v1)\<rparr>;
          v3 = v2\<lparr>m_virtual_size_changed := True, m_auto_size_columns := True,
                   m_hovered := None, m_cursor := None, m_focused := [],
                   m_event_node := None, m_tree_collapser := None\<rparr>
      in case m_last_sort v3 of
           None \<Rightarrow> Some v3
         | Some ci \<Rightarrow>
             if ci < length (view_columns v3)
             then Some (v3\<lparr>view_columns :=
                              (view_columns v3)[ci := Column_sort_None (view_columns v3 ! ci)],
                            m_last_sort := None\<rparr>)
             else None)"

text \<open>The call \<^verbatim>\<open>view->model()->remove(node)\<close> as a step on the heap and the view.
  \<^verbatim>\<open>Tree::remove\<close> is a member of the tree, and \<^verbatim>\<open>Tree\<close> has no member that points to a
  view.\<close>

definition model_remove ::
  "nat \<Rightarrow> nat option \<Rightarrow> 'k heap \<times> 'k TreeView \<Rightarrow> (nat option \<times> 'k heap \<times> 'k TreeView) option" where
  "model_remove fuel node = (\<lambda>(h, v).
     (case m_model v of
        None \<Rightarrow> None
      | Some t \<Rightarrow>
          map_option (\<lambda>(r, h', t'). (r, h', v\<lparr>m_model := Some t'\<rparr>))
            (Tree_remove fuel node (h, t))))"

subsection \<open>Collapse, expand and the virtual size\<close>

text \<open>\<^verbatim>\<open>TreeView::collapse(node)\<close> and \<^verbatim>\<open>TreeView::expand(node)\<close>.\<close>

definition collapse :: "nat option \<Rightarrow> 'k heap \<times> 'k TreeView \<Rightarrow> 'k heap \<times> 'k TreeView" where
  "collapse node = (\<lambda>(h, v).
     (case node of
        None \<Rightarrow> (h, v)
      | Some n \<Rightarrow>
          if children (h n) \<noteq> []
          then (h(n := (h n)\<lparr>is_collapsed := True\<rparr>), v\<lparr>m_virtual_size_changed := True\<rparr>)
          else (h, v)))"

definition expand :: "nat option \<Rightarrow> 'k heap \<times> 'k TreeView \<Rightarrow> 'k heap \<times> 'k TreeView" where
  "expand node = (\<lambda>(h, v).
     (case node of
        None \<Rightarrow> (h, v)
      | Some n \<Rightarrow>
          if children (h n) \<noteq> []
          then (h(n := (h n)\<lparr>is_collapsed := False\<rparr>), v\<lparr>m_virtual_size_changed := True\<rparr>)
          else (h, v)))"

text \<open>The locals that the lambda of \<^verbatim>\<open>calculateVirtualSize\<close> captures; \<open>cv_virtual_h\<close> is
  \<^verbatim>\<open>m_virtual_size.h\<close>.\<close>

record calc_locals =
  cv_collapsed :: bool
  cv_collapsed_depth :: int
  cv_parent_index :: int
  cv_scroll_offset :: nat
  cv_virtual_h :: int

text \<open>The height of a row: the loop over the cells of the node, started at the grid line
  width.\<close>

definition row_height :: "int \<Rightarrow> int list \<Rightarrow> int" where
  "row_height grid cells = fold (\<lambda>sh m. if sh + grid > m then sh + grid else m) cells grid"

text \<open>The lambda of \<^verbatim>\<open>calculateVirtualSize\<close>; \<open>ncols\<close> is the number of columns of the
  view, which the assertion compares with the number of cells of the node.\<close>

definition calculateVirtualSize_visitor :: "nat \<Rightarrow> int \<Rightarrow> ('k, calc_locals) visitor" where
  "calculateVirtualSize_visitor ncols grid n = (\<lambda>(h, l).
     (let (h1, l1) =
            (if depth (h n) = 1
             then (h(n := (h n)\<lparr>parent_index := cv_parent_index l\<rparr>),
                   l\<lparr>cv_parent_index := cv_parent_index l + 1\<rparr>)
             else (h, l));
          l2 = (if depth (h1 n) \<le> cv_collapsed_depth l1
                then l1\<lparr>cv_collapsed := False, cv_collapsed_depth := - 1\<rparr>
                else l1)
      in do {
           (h4, l4) \<leftarrow>
             (if \<not> cv_collapsed l2
              then (if length (columns (h1 n)) \<noteq> ncols then None
                    else (let mch = row_height grid (columns (h1 n));
                              h2 = h1(n := (h1 n)\<lparr>max_cell_height := mch\<rparr>);
                              h3 = h2(n := (h2 n)\<lparr>bs_data :=
                                     \<lparr>position = cv_scroll_offset l2,
                                      length' = u64 (max_cell_height (h2 n))\<rparr>\<rparr>);
                              l3 = l2\<lparr>cv_scroll_offset :=
                                         (cv_scroll_offset l2 + u64 (max_cell_height (h3 n))) mod 2 ^ 64,
                                       cv_virtual_h := cv_virtual_h l2 + max_cell_height (h3 n)\<rparr>
                          in Some (h3, l3)))
              else Some (h1(n := (h1 n)\<lparr>bs_data :=
                                \<lparr>position = cv_scroll_offset l2, length' = 0\<rparr>\<rparr>), l2));
           Some (Continue, h4,
                 if is_collapsed (h4 n) \<and> \<not> cv_collapsed l4
                 then l4\<lparr>cv_collapsed := True, cv_collapsed_depth := depth (h4 n)\<rparr>
                 else l4)
         }))"

text \<open>\<^verbatim>\<open>TreeView::calculateVirtualSize(dc)\<close>; it dereferences \<^verbatim>\<open>m_model\<close>.\<close>

definition calculateVirtualSize ::
  "nat \<Rightarrow> 'k heap \<times> 'k TreeView \<Rightarrow> ('k heap \<times> 'k TreeView) option" where
  "calculateVirtualSize fuel = (\<lambda>(h, v).
     (case m_model v of
        None \<Rightarrow> None
      | Some t \<Rightarrow>
          (let v1 = v\<lparr>m_virtual_size_h := m_children_size_h v\<rparr>
           in do {
                (h', l) \<leftarrow>
                  forEachNode fuel (roots t)
                    (Some (calculateVirtualSize_visitor (length (view_columns v1))
                             (m_grid_line_width v1)))
                    (h, \<lparr>cv_collapsed = False, cv_collapsed_depth = - 1, cv_parent_index = 0,
                         cv_scroll_offset = 0, cv_virtual_h = m_virtual_size_h v1\<rparr>);
                Some (h', v1\<lparr>m_virtual_size_h := cv_virtual_h l,
                              m_virtual_size_changed := False,
                              m_auto_size_columns := False\<rparr>)
              })))"

subsection \<open>Binary search\<close>

text \<open>The \<^verbatim>\<open>while\<close> loop of \<^verbatim>\<open>binarySearch\<close>; the result is \<^verbatim>\<open>mid\<close> and \<^verbatim>\<open>point\<close> when the
  loop is left. In the loop \<open>lower \<le> upper < roots.size()\<close>, so \<open>lower + upper\<close> stays
  below \<open>2 ^ 64\<close> for every vector of pointers. When \<^verbatim>\<open>target < point.position\<close> at
  \<open>mid = 0\<close>, \<^verbatim>\<open>upper = mid - 1\<close> wraps to \<open>2 ^ 64 - 1\<close> and the next round reads
  \<^verbatim>\<open>roots[2 ^ 63 - 1]\<close>, past the end of any vector of pointers: undefined behaviour.\<close>

function bs_loop ::
  "'k heap \<Rightarrow> nat list \<Rightarrow> nat \<Rightarrow> nat \<Rightarrow> nat \<Rightarrow> nat \<times> BinarySearchData \<Rightarrow>
   (nat \<times> BinarySearchData) option" where
  "bs_loop h rts target lower upper mp =
     (if lower \<le> upper
      then (let mid = (lower + upper) div 2
            in if mid \<ge> length rts then None
               else (let point = bs_data (h (rts ! mid))
                     in if target < position point
                        then (if mid = 0 then None
                              else bs_loop h rts target lower (mid - 1) (mid, point))
                        else if target >
                                (if length rts - 1 > mid
                                 then position (bs_data (h (rts ! (mid + 1))))
                                 else (position point + length' point) mod 2 ^ 64)
                        then bs_loop h rts target (mid + 1) upper (mid, point)
                        else Some (mid, point)))
      else Some mp)"
  by pat_completeness auto
termination
  by (relation "measure (\<lambda>(h, rts, target, lower, upper, mp). Suc upper - lower)") auto

declare bs_loop.simps [simp del]

text \<open>\<^verbatim>\<open>TreeView::binarySearch(roots, target)\<close>; the result is the pair of
  \<^verbatim>\<open>BinarySearchResult\<close>, an index and an optional node. The recursion into the children
  takes fuel.\<close>

primrec binarySearch ::
  "nat \<Rightarrow> 'k heap \<Rightarrow> nat list \<Rightarrow> nat \<Rightarrow> (nat \<times> nat option) option" where
  "binarySearch 0 h rts target = None"
| "binarySearch (Suc k) h rts target =
     (if rts = [] then Some (0, None)
      else (case bs_loop h rts target 0 (length rts - 1) (0, \<lparr>position = 0, length' = 0\<rparr>) of
              None \<Rightarrow> None
            | Some (mid, point) \<Rightarrow>
                if position point \<le> target \<and> (position point + length' point) mod 2 ^ 64 \<ge> target
                then Some (mid, Some (rts ! mid))
                else if children (h (rts ! mid)) \<noteq> []
                then binarySearch k h (children (h (rts ! mid))) target
                else Some (0, None)))"

section \<open>The shape of a heap\<close>

text \<open>The heap holds a tree when its \<open>children\<close> vectors spell out a finite tree of
  addresses. \<open>shaped h t\<close> says that the nodes of \<open>t\<close> have in \<open>h\<close> exactly the children
  that \<open>t\<close> gives them; \<open>preorder\<close> lists the addresses depth first, a node before its
  children, children in vector order.\<close>

datatype rtree = RNode nat "rtree list"

fun root_of :: "rtree \<Rightarrow> nat" where
  "root_of (RNode n ts) = n"

fun subtrees :: "rtree \<Rightarrow> rtree list" where
  "subtrees (RNode n ts) = ts"

fun preorder :: "rtree \<Rightarrow> nat list" where
  "preorder (RNode n ts) = n # concat (map preorder ts)"

definition preorder_forest :: "rtree list \<Rightarrow> nat list" where
  "preorder_forest ts = concat (map preorder ts)"

fun height :: "rtree \<Rightarrow> nat" where
  "height (RNode n ts) = Suc (fold max (map height ts) 0)"

definition height_forest :: "rtree list \<Rightarrow> nat" where
  "height_forest ts = fold max (map height ts) 0"

fun shaped :: "'k heap \<Rightarrow> rtree \<Rightarrow> bool" where
  "shaped h (RNode n ts) = (children (h n) = map root_of ts \<and> list_all (shaped h) ts)"

definition shaped_forest :: "'k heap \<Rightarrow> nat list \<Rightarrow> rtree list \<Rightarrow> bool" where
  "shaped_forest h rts ts = (rts = map root_of ts \<and> list_all (shaped h) ts)"

text \<open>The traversal of \<^verbatim>\<open>descend\<close> written by recursion on the tree instead of on fuel.
  It agrees with \<open>descend\<close> on a heap of that shape when the visitor leaves the
  \<open>children\<close> vectors alone (lemma \<open>descend_walk\<close>).\<close>

fun walk ::
  "('k, 'a) visitor option \<Rightarrow> rtree \<Rightarrow> Traversal \<times> 'k heap \<times> 'a \<Rightarrow>
   (nat option \<times> Traversal \<times> 'k heap \<times> 'a) option"
and walk_list ::
  "('k, 'a) visitor option \<Rightarrow> rtree list \<Rightarrow> nat option \<times> Traversal \<times> 'k heap \<times> 'a \<Rightarrow>
   (nat option \<times> Traversal \<times> 'k heap \<times> 'a) option" where
  "walk fn (RNode n ts) s =
     (case visit fn n s of
        None \<Rightarrow> None
      | Some (return_early, s') \<Rightarrow>
          if return_early then Some (Some n, s')
          else if ts \<noteq> [] then walk_list fn ts (None, s')
          else Some (Some n, s'))"
| "walk_list fn [] ls = Some ls"
| "walk_list fn (t # ts) ls =
     (case walk fn t (snd ls) of
        None \<Rightarrow> None
      | Some (lst', s') \<Rightarrow>
          if fst s' = Break then Some (lst', s') else walk_list fn ts (lst', s'))"

definition keeps_children :: "('k, 'a) visitor \<Rightarrow> bool" where
  "keeps_children f =
     (\<forall>n h a e h' a'. f n (h, a) = Some (e, h', a') \<longrightarrow> (\<forall>m. children (h' m) = children (h m)))"

definition visitor_keeps :: "('k, 'a) visitor option \<Rightarrow> bool" where
  "visitor_keeps fn = (case fn of None \<Rightarrow> True | Some f \<Rightarrow> keeps_children f)"

text \<open>A visitor that never answers \<^verbatim>\<open>Next\<close> or \<^verbatim>\<open>Break\<close> is run on every node in
  pre-order; \<open>fold_visit\<close> is that run written over the list of addresses.\<close>

definition only_continues :: "('k, 'a) visitor \<Rightarrow> bool" where
  "only_continues f = (\<forall>n hs e hs'. f n hs = Some (e, hs') \<longrightarrow> e = Continue)"

fun fold_visit :: "('k, 'a) visitor \<Rightarrow> nat list \<Rightarrow> 'k heap \<times> 'a \<Rightarrow> ('k heap \<times> 'a) option" where
  "fold_visit f [] hs = Some hs"
| "fold_visit f (n # ns) hs =
     (case f n hs of None \<Rightarrow> None | Some (e, hs') \<Rightarrow> fold_visit f ns hs')"

text \<open>The two fields of the position index, read at an address.\<close>

definition len_of :: "'k heap \<Rightarrow> nat \<Rightarrow> nat" where
  "len_of h n = length' (bs_data (h n))"

definition pos_of :: "'k heap \<Rightarrow> nat \<Rightarrow> nat" where
  "pos_of h n = position (bs_data (h n))"

text \<open>What the virtual-size computation reads of a node: its depth, its collapsed flag
  and the size hints of its cells.\<close>

definition same_layout_input :: "'k heap \<Rightarrow> 'k heap \<Rightarrow> bool" where
  "same_layout_input h h' =
     (\<forall>m. depth (h m) = depth (h' m) \<and> is_collapsed (h m) = is_collapsed (h' m) \<and>
          columns (h m) = columns (h' m))"

text \<open>The lambda of \<^verbatim>\<open>calculateVirtualSize\<close> reads and writes the one node it is called on;
  \<open>calc_node\<close> is its effect on that node and on the captured locals (lemma
  \<open>calc_visitor_node\<close>).\<close>

definition calc_node ::
  "nat \<Rightarrow> int \<Rightarrow> 'k TreeNode \<Rightarrow> calc_locals \<Rightarrow> ('k TreeNode \<times> calc_locals) option" where
  "calc_node ncols grid nd l =
     (let nd1 = (if depth nd = 1 then nd\<lparr>parent_index := cv_parent_index l\<rparr> else nd);
          l1 = (if depth nd = 1 then l\<lparr>cv_parent_index := cv_parent_index l + 1\<rparr> else l);
          l2 = (if depth nd \<le> cv_collapsed_depth l1
                then l1\<lparr>cv_collapsed := False, cv_collapsed_depth := - 1\<rparr>
                else l1);
          mch = row_height grid (columns nd)
      in if cv_collapsed l2
         then Some (nd1\<lparr>bs_data := \<lparr>position = cv_scroll_offset l2, length' = 0\<rparr>\<rparr>, l2)
         else if length (columns nd) \<noteq> ncols then None
         else Some (nd1\<lparr>max_cell_height := mch,
                         bs_data := \<lparr>position = cv_scroll_offset l2, length' = u64 mch\<rparr>\<rparr>,
                    (let l3 = l2\<lparr>cv_scroll_offset := (cv_scroll_offset l2 + u64 mch) mod 2 ^ 64,
                                  cv_virtual_h := cv_virtual_h l2 + mch\<rparr>
                     in if is_collapsed nd
                        then l3\<lparr>cv_collapsed := True, cv_collapsed_depth := depth nd\<rparr>
                        else l3)))"

subsection \<open>A well-formed position index\<close>

text \<open>The index that \<^verbatim>\<open>_updateBSData\<close> and \<^verbatim>\<open>calculateVirtualSize\<close> build: along the
  pre-order the positions are the running totals of the lengths, starting from 0, and
  the total, the indexed extent, fits in a \<^verbatim>\<open>u64\<close>.\<close>

fun running :: "'k heap \<Rightarrow> nat \<Rightarrow> nat list \<Rightarrow> bool" where
  "running h p [] = True"
| "running h p (n # ns) = (pos_of h n = p \<and> running h (p + len_of h n) ns)"

definition extent :: "'k heap \<Rightarrow> nat list \<Rightarrow> nat" where
  "extent h ns = sum_list (map (len_of h) ns)"

definition well_indexed :: "'k heap \<Rightarrow> rtree list \<Rightarrow> bool" where
  "well_indexed h ts =
     (running h 0 (preorder_forest ts) \<and> extent h (preorder_forest ts) < 2 ^ 64)"

subsection \<open>The links of a tree\<close>

text \<open>The invariant of the specification: the \<open>parent_index\<close> of a root is its index in
  the roots vector, and the \<open>parent_index\<close> of a child is its index in the \<open>children\<close>
  vector of its parent. \<open>S\<close> is the set of nodes the statement is about.\<close>

definition parent_index_ok :: "'k heap \<Rightarrow> nat list \<Rightarrow> nat set \<Rightarrow> bool" where
  "parent_index_ok h rts S =
     ((\<forall>i<length rts. parent_index (h (rts ! i)) = int i) \<and>
      (\<forall>p\<in>S. \<forall>i<length (children (h p)). parent_index (h (children (h p) ! i)) = int i))"

text \<open>The parent pointers agree with the vectors: a root has no parent, and a child
  points back at the node whose vector holds it.\<close>

definition parent_ok :: "'k heap \<Rightarrow> nat list \<Rightarrow> nat set \<Rightarrow> bool" where
  "parent_ok h rts S =
     ((\<forall>r\<in>set rts. parent (h r) = None) \<and>
      (\<forall>p\<in>S. \<forall>c\<in>set (children (h p)). parent (h c) = Some p))"

text \<open>Every vector is short enough for its indices to fit an \<^verbatim>\<open>i32\<close>.\<close>

definition sizes_ok :: "'k heap \<Rightarrow> nat list \<Rightarrow> nat set \<Rightarrow> bool" where
  "sizes_ok h rts S = (length rts \<le> 2 ^ 31 \<and> (\<forall>p\<in>S. length (children (h p)) \<le> 2 ^ 31))"

text \<open>Two heaps with the same links: every node has the same parent, the same
  \<open>parent_index\<close> and the same children in both.\<close>

definition same_links :: "'k heap \<Rightarrow> 'k heap \<Rightarrow> bool" where
  "same_links h h' =
     (\<forall>a. parent (h' a) = parent (h a) \<and> parent_index (h' a) = parent_index (h a) \<and>
          children (h' a) = children (h a))"

text \<open>A well-formed model: the roots and their descendants form the forest \<open>ts\<close>, and
  the links of all its nodes are right.\<close>

definition tree_inv :: "'k heap \<Rightarrow> Tree \<Rightarrow> rtree list \<Rightarrow> bool" where
  "tree_inv h t ts =
     (shaped_forest h (roots t) ts \<and>
      parent_index_ok h (roots t) (set (preorder_forest ts)) \<and>
      parent_ok h (roots t) (set (preorder_forest ts)) \<and>
      sizes_ok h (roots t) (set (preorder_forest ts)))"

text \<open>A detached node with the subtree \<open>tn\<close> below it, as \<^verbatim>\<open>append\<close> and \<^verbatim>\<open>insert\<close> take
  it: it has no parent, the links inside the subtree are right, and none of its nodes is
  in the tree.\<close>

definition detached :: "'k heap \<Rightarrow> rtree list \<Rightarrow> rtree \<Rightarrow> bool" where
  "detached h ts tn =
     (shaped h tn \<and> parent (h (root_of tn)) = None \<and>
      parent_index_ok h [] (set (preorder tn)) \<and> parent_ok h [] (set (preorder tn)) \<and>
      sizes_ok h [] (set (preorder tn)) \<and>
      set (preorder tn) \<inter> set (preorder_forest ts) = {})"

text \<open>The forest after the subtree \<open>tn\<close> has become the \<open>i\<close>-th child of the node \<open>p\<close>,
  and after the subtree below the node \<open>n\<close> has been taken out.\<close>

fun ins_child :: "nat \<Rightarrow> nat \<Rightarrow> rtree \<Rightarrow> rtree \<Rightarrow> rtree" where
  "ins_child p i tn (RNode m cs) =
     (if m = p
      then RNode m (take i (map (ins_child p i tn) cs) @ tn # drop i (map (ins_child p i tn) cs))
      else RNode m (map (ins_child p i tn) cs))"

fun del_tree :: "nat \<Rightarrow> rtree \<Rightarrow> rtree" where
  "del_tree n (RNode m cs) = RNode m (map (del_tree n) (filter (\<lambda>c. root_of c \<noteq> n) cs))"

definition del_forest :: "nat \<Rightarrow> rtree list \<Rightarrow> rtree list" where
  "del_forest n ts = map (del_tree n) (filter (\<lambda>c. root_of c \<noteq> n) ts)"

text \<open>The vector a node is put into by \<^verbatim>\<open>append\<close> and \<^verbatim>\<open>insert\<close>: the roots for a null
  parent, the children of the parent otherwise; and the forest after the subtree \<open>tn\<close> has
  been put at index \<open>i\<close> of that vector.\<close>

definition siblings :: "'k heap \<Rightarrow> Tree \<Rightarrow> nat option \<Rightarrow> nat list" where
  "siblings h t par = (case par of None \<Rightarrow> roots t | Some p \<Rightarrow> children (h p))"

definition ins_forest :: "nat option \<Rightarrow> nat \<Rightarrow> rtree \<Rightarrow> rtree list \<Rightarrow> rtree list" where
  "ins_forest par i tn ts =
     (case par of None \<Rightarrow> take i ts @ tn # drop i ts | Some p \<Rightarrow> map (ins_child p i tn) ts)"

subsection \<open>The order of a traversal, from the words of the specification\<close>

text \<open>To observe a traversal, a visitor is instrumented: it appends the node it is
  called on to a log and answers what \<open>dec\<close> says for that node; it leaves the heap
  alone.\<close>

definition log_visitor :: "(nat \<Rightarrow> Traversal) \<Rightarrow> ('k, nat list) visitor" where
  "log_visitor dec n = (\<lambda>(h, log). Some (dec n, h, log @ [n]))"

text \<open>The specification: depth-first, pre-order, children in child-sequence order; an
  answer other than \<^verbatim>\<open>Continue\<close> abandons the children of the node (\<open>pruned\<close>); the first
  \<^verbatim>\<open>Break\<close> ends the whole traversal, nothing after that node is visited
  (\<open>upto_break\<close>).\<close>

fun pruned :: "(nat \<Rightarrow> Traversal) \<Rightarrow> rtree \<Rightarrow> nat list" where
  "pruned dec (RNode n ts) = n # (if dec n = Continue then concat (map (pruned dec) ts) else [])"

fun upto_break :: "(nat \<Rightarrow> Traversal) \<Rightarrow> nat list \<Rightarrow> nat list" where
  "upto_break dec [] = []"
| "upto_break dec (n # ns) = n # (if dec n = Break then [] else upto_break dec ns)"

definition has_break :: "(nat \<Rightarrow> Traversal) \<Rightarrow> nat list \<Rightarrow> bool" where
  "has_break dec ns = list_ex (\<lambda>n. dec n = Break) ns"

definition spec_visited :: "(nat \<Rightarrow> Traversal) \<Rightarrow> rtree list \<Rightarrow> nat list" where
  "spec_visited dec ts = upto_break dec (concat (map (pruned dec) ts))"

subsection \<open>A model built and rearranged through the operations of the tree\<close>

text \<open>Five fresh nodes at the addresses 1 to 5. The tree is built with \<^verbatim>\<open>append\<close> alone:
  root 1 with the children 2 and 3, node 3 with the child 4, and a second root 5. Then
  node 1 is moved under node 5, as a drag and drop does it: \<^verbatim>\<open>remove(1)\<close> followed by
  \<^verbatim>\<open>append(5, 1)\<close>.\<close>

definition built_model :: "(nat heap \<times> Tree) option" where
  "built_model = do {
     (_, s1) \<leftarrow> Tree_append 10 None 1 (\<lambda>a. new_node [] a, \<lparr>roots = []\<rparr>);
     (_, s2) \<leftarrow> Tree_append 10 (Some 1) 2 s1;
     (_, s3) \<leftarrow> Tree_append 10 (Some 1) 3 s2;
     (_, s4) \<leftarrow> Tree_append 10 (Some 3) 4 s3;
     (_, s5) \<leftarrow> Tree_append 10 None 5 s4;
     Some s5
   }"

definition moved_model :: "(nat heap \<times> Tree) option" where
  "moved_model = do {
     s5 \<leftarrow> built_model;
     (_, s6) \<leftarrow> Tree_remove 10 (Some 1) s5;
     (_, s7) \<leftarrow> Tree_append 10 (Some 5) 1 s6;
     Some s7
   }"

text \<open>What a test reads off a model: the roots, and per address the parent, the
  parent index, the children and the depth.\<close>

definition snapshot ::
  "nat list \<Rightarrow> (nat heap \<times> Tree) option \<Rightarrow>
   (nat list \<times> (nat option \<times> int \<times> nat list \<times> int) list) option" where
  "snapshot as = map_option (\<lambda>(h, t).
     (roots t, map (\<lambda>a. (parent (h a), parent_index (h a), children (h a), depth (h a))) as))"

subsection \<open>A sample model\<close>

text \<open>Two roots, the first with two children, every row ten units high; the position
  index is the one \<^verbatim>\<open>_updateBSData\<close> builds. Addresses: 1 and 4 are the roots, 2 and 3
  the children of 1.\<close>

definition ex_node ::
  "nat option \<Rightarrow> int \<Rightarrow> nat list \<Rightarrow> int \<Rightarrow> nat \<Rightarrow> nat TreeNode" where
  "ex_node par i cs d pos =
     \<lparr>columns = [9], hidden = pos, parent = par, parent_index = i, children = cs,
      is_collapsed = False, max_cell_height = 10, depth = d,
      bs_data = \<lparr>position = pos, length' = 10\<rparr>\<rparr>"

definition ex_heap :: "nat heap" where
  "ex_heap = (\<lambda>a. new_node [] 0)
     (1 := ex_node None 0 [2, 3] 1 0,
      2 := ex_node (Some 1) 0 [] 2 10,
      3 := ex_node (Some 1) 1 [] 2 20,
      4 := ex_node None 1 [] 1 30)"

text \<open>The same model with the first root collapsed.\<close>

definition ex_heap_collapsed :: "nat heap" where
  "ex_heap_collapsed = ex_heap(1 := (ex_heap 1)\<lparr>is_collapsed := True\<rparr>)"

definition ex_forest :: "rtree list" where
  "ex_forest = [RNode 1 [RNode 2 [], RNode 3 []], RNode 4 []]"

text \<open>A view of the sample model with one sortable column; the pointer rests on the
  second root, which is hovered, selected, under the keyboard cursor and the target of
  a pending drop.\<close>

definition ex_column :: "nat Column" where
  "ex_column = \<lparr>sort_fn = Some (<), m_sort = Ascending, column_has_model = True,
     m_dragging = False, sort_icon_shown = True, sort_icon_flipped = False\<rparr>"

definition ex_view :: "nat TreeView" where
  "ex_view = \<lparr>m_model = Some \<lparr>roots = [1, 4]\<rparr>, view_columns = [ex_column],
     m_virtual_size_h = 0, m_children_size_h = 0, m_virtual_size_changed = False,
     m_auto_size_columns = False, m_hovered = Some 4, m_cursor = Some 4, m_focused = [4],
     m_event_node = Some 4, m_tree_collapser = None, m_last_sort = Some 0,
     m_grid_line_width = 1, drop_action = \<lparr>drop_node = Some 4, drop_type = Child\<rparr>\<rparr>"

subsection \<open>A model with a full roots vector\<close>

text \<open>\<^verbatim>\<open>parent_index\<close> is an \<^verbatim>\<open>i32\<close>, the vectors are indexed by \<^verbatim>\<open>u64\<close>. The model below has
  \<open>2\<^sup>3\<^sup>1\<close> childless roots, at the addresses \<open>0\<close> to \<open>2\<^sup>3\<^sup>1 - 1\<close>, each with its index as
  \<open>parent_index\<close>: the largest roots vector all of whose indices fit. Every other address
  holds a fresh node. \<open>leaves ns\<close> is the forest of childless roots \<open>ns\<close>.\<close>

definition big_heap :: "nat heap" where
  "big_heap = (\<lambda>a. if a < 2 ^ 31 then (new_node [] a)\<lparr>parent_index := int a, depth := 1\<rparr>
                    else new_node [] a)"

definition big_tree :: Tree where
  "big_tree = \<lparr>roots = [0 ..< 2 ^ 31]\<rparr>"

definition leaves :: "nat list \<Rightarrow> rtree list" where
  "leaves ns = map (\<lambda>r. RNode r []) ns"

section \<open>Properties\<close>

subsection \<open>Traversal on a heap of known shape\<close>

lemma shaped_cong_children:
  "(\<And>a. a \<in> set (preorder t) \<Longrightarrow> children (h' a) = children (h a)) \<Longrightarrow> shaped h' t = shaped h t"
proof (induction t)
  case (RNode n ts)
  have "list_all (shaped h') ts = list_all (shaped h) ts"
    unfolding list_all_iff
  proof (rule ball_cong[OF refl])
    fix t assume t: "t \<in> set ts"
    show "shaped h' t = shaped h t"
      by (rule RNode.IH[OF t]) (use t RNode.prems in auto)
  qed
  moreover have "children (h' n) = children (h n)" using RNode.prems by simp
  ultimately show ?case by simp
qed

lemma keeps_childrenD:
  "keeps_children f \<Longrightarrow> f n (h, a) = Some (e, h', a') \<Longrightarrow> children (h' m) = children (h m)"
  unfolding keeps_children_def by blast

lemma visit_children:
  assumes "visitor_keeps fn" "visit fn n s = Some (r, s')"
  shows "children (fst (snd s') m) = children (fst (snd s) m)"
proof (cases fn)
  case None
  with assms(2) show ?thesis by (simp add: visit_def)
next
  case (Some f)
  obtain e0 h a where s: "s = (e0, h, a)" by (cases s)
  from assms(2) Some s obtain e h' a' where f: "f n (h, a) = Some (e, h', a')" and s': "s' = (e, h', a')"
    by (auto simp: visit_def split: option.splits)
  have "keeps_children f" using assms(1) Some by (simp add: visitor_keeps_def)
  from keeps_childrenD[OF this f] s s' show ?thesis by simp
qed

lemma walk_children:
  shows "visitor_keeps fn \<Longrightarrow> walk fn t s = Some (l, s') \<Longrightarrow> children (fst (snd s') m) = children (fst (snd s) m)"
    and "visitor_keeps fn \<Longrightarrow> walk_list fn ts ls = Some (l, s') \<Longrightarrow> children (fst (snd s') m) = children (fst (snd (snd ls)) m)"
proof (induction fn t s and fn ts ls arbitrary: l s' and l s' rule: walk_walk_list.induct)
  case (1 fn n ts s)
  show ?case
  proof (cases "visit fn n s")
    case None
    with "1.prems" show ?thesis by simp
  next
    case (Some a)
    obtain r s1 where a: "a = (r, s1)" by (cases a)
    have vc: "children (fst (snd s1) m) = children (fst (snd s) m)"
      by (rule visit_children[where fn=fn and n=n and r=r]) (use "1.prems" Some a in simp_all)
    show ?thesis
    proof (cases "r \<or> ts = []")
      case True
      then show ?thesis using "1.prems" Some a vc by (auto split: if_splits)
    next
      case False
      then have "walk_list fn ts (None, s1) = Some (l, s')"
        using "1.prems" Some a by simp
      from "1.IH"[OF Some a[symmetric] _ _ "1.prems"(1) this] False
      have "children (fst (snd s') m) = children (fst (snd s1) m)" by simp
      with vc show ?thesis by simp
    qed
  qed
next
  case (2 fn ls)
  then show ?case by auto
next
  case (3 fn t ts ls)
  show ?case
  proof (cases "walk fn t (snd ls)")
    case None
    with "3.prems" show ?thesis by simp
  next
    case (Some a)
    obtain l1 s1 where a: "a = (l1, s1)" by (cases a)
    have c1: "children (fst (snd s1) m) = children (fst (snd (snd ls)) m)"
      using "3.IH"(1)[OF "3.prems"(1)] Some a by simp
    show ?thesis
    proof (cases "fst s1 = Break")
      case True
      then show ?thesis using "3.prems" Some a c1 by simp
    next
      case False
      then have "walk_list fn ts (l1, s1) = Some (l, s')" using "3.prems" Some a by simp
      from "3.IH"(2)[OF Some a[symmetric] False "3.prems"(1) this] c1 show ?thesis by simp
    qed
  qed
qed

lemma height_le_fold: "t \<in> set ts \<Longrightarrow> height t \<le> fold max (map height ts) b"
proof -
  assume "t \<in> set ts"
  then have "height t \<in> set (b # map height ts)" by simp
  then have "height t \<le> Max (set (b # map height ts))" by (intro Max_ge) simp_all
  then show ?thesis by (simp only: Max.set_eq_fold)
qed

lemma height_subtree: "t \<in> set ts \<Longrightarrow> height t < height (RNode n ts)"
  using height_le_fold[of t ts 0] by simp

lemma descend_walk_aux:
  shows "visitor_keeps fn \<Longrightarrow> shaped (fst (snd s)) t \<Longrightarrow> height t \<le> k \<Longrightarrow> descend k fn (root_of t) s = walk fn t s"
    and "visitor_keeps fn \<Longrightarrow> list_all (shaped (fst (snd (snd ls)))) ts \<Longrightarrow> (\<forall>t\<in>set ts. height t \<le> k) \<Longrightarrow>
         each_node (descend k fn) (map root_of ts) ls = walk_list fn ts ls"
proof (induction fn t s and fn ts ls arbitrary: k and k rule: walk_walk_list.induct)
  case (1 fn n ts s)
  note k = "1.prems"(1)
  from "1.prems"(3) obtain k' where k': "k = Suc k'" by (cases k) auto
  show ?case
  proof (cases "visit fn n s")
    case None
    then show ?thesis by (simp add: k')
  next
    case (Some a)
    obtain r s' where a: "a = (r, s')" by (cases a)
    have vc: "children (fst (snd s') m) = children (fst (snd s) m)" for m
      by (rule visit_children[where fn=fn and n=n and r=r]) (use k Some a in simp_all)
    have ch: "children (fst (snd s') n) = children (fst (snd s) n)"
      by (rule vc)
    have sh': "shaped (fst (snd s')) (RNode n ts) = shaped (fst (snd s)) (RNode n ts)"
      by (rule shaped_cong_children) (rule vc)
    show ?thesis
    proof (cases "r \<or> ts = []")
      case True
      then show ?thesis using Some a ch "1.prems"(2) by (auto simp: k')
    next
      case False
      have hs: "\<forall>t\<in>set ts. height t \<le> k'"
      proof
        fix t assume "t \<in> set ts"
        from height_subtree[OF this, of n] "1.prems"(3) k' show "height t \<le> k'" by simp
      qed
      have "each_node (descend k' fn) (map root_of ts) (None, s') = walk_list fn ts (None, s')"
        by (rule "1.IH"[OF Some a[symmetric]]) (use False sh' "1.prems"(2) hs k in auto)
      then show ?thesis using Some a ch "1.prems"(2) False by (simp add: k')
    qed
  qed
next
  case (2 fn ls)
  then show ?case by simp
next
  case (3 fn t ts ls)
  note k = "3.prems"(1)
  let ?s = "snd ls"
  have sh: "shaped (fst (snd ?s)) t" and sht: "list_all (shaped (fst (snd ?s))) ts"
    using "3.prems"(2) by simp_all
  have hk: "height t \<le> k" and hks: "\<forall>t\<in>set ts. height t \<le> k"
    using "3.prems"(3) by simp_all
  have d: "descend k fn (root_of t) ?s = walk fn t ?s"
    by (rule "3.IH"(1)[OF k sh hk])
  have unf: "each_node (descend k fn) (map root_of (t # ts)) ls =
      (case descend k fn (root_of t) ?s of
         None \<Rightarrow> None
       | Some (lst', s') \<Rightarrow>
          if fst s' = Break then Some (lst', s') else each_node (descend k fn) (map root_of ts) (lst', s'))"
    by (cases ls) simp
  show ?case
  proof (cases "walk fn t ?s")
    case None
    then show ?thesis unfolding unf d by simp
  next
    case (Some a)
    obtain lst' s' where a: "a = (lst', s')" by (cases a)
    have wc: "children (fst (snd s') m) = children (fst (snd ?s) m)" for m
      by (rule walk_children(1)[where fn=fn and t=t and l=lst']) (use k Some a in simp_all)
    have "list_all (shaped (fst (snd s'))) ts = list_all (shaped (fst (snd ?s))) ts"
      unfolding list_all_iff
      by (intro ball_cong refl shaped_cong_children) (rule wc)
    with sht have sht': "list_all (shaped (fst (snd (snd (lst', s'))))) ts" by simp
    have "fst s' \<noteq> Break \<Longrightarrow> each_node (descend k fn) (map root_of ts) (lst', s') = walk_list fn ts (lst', s')"
      by (rule "3.IH"(2)[OF Some a[symmetric] _ k sht' hks])
    then show ?thesis unfolding unf d using Some a by simp
  qed
qed

lemma only_continuesD: "only_continues f \<Longrightarrow> f n hs = Some (e, hs') \<Longrightarrow> e = Continue"
  unfolding only_continues_def by blast

lemma fold_visit_append:
  "fold_visit f (xs @ ys) hs = (case fold_visit f xs hs of None \<Rightarrow> None | Some hs' \<Rightarrow> fold_visit f ys hs')"
  by (induction xs arbitrary: hs) (auto split: option.splits)

lemma walk_fold_visit:
  shows "only_continues f \<Longrightarrow>
         map_option (snd \<circ> snd) (walk (Some f) t s) = fold_visit f (preorder t) (snd s) \<and>
         (\<forall>l e hs. walk (Some f) t s = Some (l, e, hs) \<longrightarrow> e = Continue)"
    and "only_continues f \<Longrightarrow>
         map_option (snd \<circ> snd) (walk_list (Some f) ts ls) = fold_visit f (preorder_forest ts) (snd (snd ls)) \<and>
         (\<forall>l e hs. walk_list (Some f) ts ls = Some (l, e, hs) \<longrightarrow> ts \<noteq> [] \<longrightarrow> e = Continue)"
proof (induction "Some f" t s and "Some f" ts ls rule: walk_walk_list.induct)
  case (1 n ts s)
  show ?case
  proof (cases "f n (snd s)")
    case None
    then show ?thesis by (simp add: visit_def)
  next
    case (Some a)
    obtain e hs where a: "a = (e, hs)" by (cases a)
    have e: "e = Continue" using only_continuesD[OF "1.prems"] Some a by blast
    have v: "visit (Some f) n s = Some (False, Continue, hs)"
      using Some a e by (simp add: visit_def)
    show ?thesis
    proof (cases "ts = []")
      case True
      then show ?thesis using v Some a by simp
    next
      case False
      have ih: "map_option (snd \<circ> snd) (walk_list (Some f) ts (None, Continue, hs)) =
                fold_visit f (preorder_forest ts) hs \<and>
         (\<forall>l e hs'. walk_list (Some f) ts (None, Continue, hs) = Some (l, e, hs') \<longrightarrow> ts \<noteq> [] \<longrightarrow> e = Continue)"
        using "1.hyps"[OF v refl _ False "1.prems"] by simp
      have w: "walk (Some f) (RNode n ts) s = walk_list (Some f) ts (None, Continue, hs)"
        using v False by simp
      show ?thesis unfolding w using ih Some a False by (simp add: preorder_forest_def)
    qed
  qed
next
  case (2 ls)
  then show ?case by (simp add: preorder_forest_def)
next
  case (3 t ts ls)
  have pf: "preorder_forest (t # ts) = preorder t @ preorder_forest ts"
    by (simp add: preorder_forest_def)
  note ih1 = "3.hyps"(1)[OF "3.prems"]
  show ?case
  proof (cases "walk (Some f) t (snd ls)")
    case None
    then show ?thesis using ih1 by (simp add: pf fold_visit_append)
  next
    case (Some a)
    obtain l1 e1 hs1 where a: "a = (l1, e1, hs1)" by (cases a)
    have e1: "e1 = Continue" using ih1 Some a by simp
    have f1: "fold_visit f (preorder t) (snd (snd ls)) = Some hs1"
      using ih1 Some a by simp
    have w: "walk_list (Some f) (t # ts) ls = walk_list (Some f) ts (l1, e1, hs1)"
      using Some a e1 by simp
    have ih2: "map_option (snd \<circ> snd) (walk_list (Some f) ts (l1, e1, hs1)) =
       fold_visit f (preorder_forest ts) hs1 \<and>
       (\<forall>l e hs. walk_list (Some f) ts (l1, e1, hs1) = Some (l, e, hs) \<longrightarrow> ts \<noteq> [] \<longrightarrow> e = Continue)"
      using "3.hyps"(2)[OF Some a[symmetric] _ "3.prems"] e1 by simp
    show ?thesis
    proof (cases "ts = []")
      case True
      then show ?thesis unfolding w using f1 e1 by (simp add: pf fold_visit_append preorder_forest_def)
    next
      case False
      then show ?thesis unfolding w using ih2 f1 by (simp add: pf fold_visit_append)
    qed
  qed
qed


lemma forEachNode_walk:
  assumes "visitor_keeps fn" "shaped_forest h rts ts" "height_forest ts \<le> fuel"
  shows "forEachNode fuel rts fn (h, a) =
         map_option (snd \<circ> snd) (walk_list fn ts (None, Continue, h, a))"
proof -
  have hs: "\<forall>t\<in>set ts. height t \<le> fuel"
  proof
    fix t assume "t \<in> set ts"
    from height_le_fold[OF this, of 0] assms(3) show "height t \<le> fuel"
      by (simp add: height_forest_def)
  qed
  have sh: "list_all (shaped (fst (snd (snd (None, Continue, h, a))))) ts"
    using assms(2) by (simp add: shaped_forest_def)
  have rts: "rts = map root_of ts" using assms(2) by (simp add: shaped_forest_def)
  have "(\<lambda>(lst, e, hs'). hs') = (snd \<circ> snd :: nat option \<times> Traversal \<times> 'a heap \<times> 'b \<Rightarrow> _)"
    by (auto simp: fun_eq_iff)
  then show ?thesis
    unfolding forEachNode_def rts descend_walk_aux(2)[OF assms(1) sh hs] by simp
qed

lemma forEachNode_fold:
  assumes "only_continues f" "keeps_children f" "shaped_forest h rts ts" "height_forest ts \<le> fuel"
  shows "forEachNode fuel rts (Some f) (h, a) = fold_visit f (preorder_forest ts) (h, a)"
proof -
  have "visitor_keeps (Some f)" using assms(2) by (simp add: visitor_keeps_def)
  from forEachNode_walk[OF this assms(3,4)] walk_fold_visit(2)[OF assms(1), of ts "(None, Continue, h, a)"]
  show ?thesis by simp
qed

lemma updateBSData_visitor_only_continues: "only_continues updateBSData_visitor"
  by (auto simp: only_continues_def updateBSData_visitor_def)

lemma updateBSData_visitor_keeps: "keeps_children updateBSData_visitor"
  by (auto simp: keeps_children_def updateBSData_visitor_def)

lemma fold_updateBSData:
  "distinct ns \<Longrightarrow> p < 2 ^ 64 \<Longrightarrow>
   \<exists>h'. fold_visit updateBSData_visitor ns (h, p) =
          Some (h', (p + sum_list (map (len_of h) ns)) mod 2 ^ 64) \<and>
        (\<forall>m. h' m = (if m \<in> set ns then (h m)\<lparr>bs_data := (bs_data (h m))\<lparr>position := pos_of h' m\<rparr>\<rparr> else h m)) \<and>
        (\<forall>i<length ns. pos_of h' (ns ! i) = (if i = 0 then p else (p + sum_list (map (len_of h) (take i ns))) mod 2 ^ 64))"
proof (induction ns arbitrary: h p)
  case Nil
  then show ?case by simp
next
  case (Cons n ns)
  let ?h1 = "h(n := (h n)\<lparr>bs_data := (bs_data (h n))\<lparr>position := p\<rparr>\<rparr>)"
  let ?p1 = "(p + len_of h n) mod 2 ^ 64"
  have len1: "len_of ?h1 = len_of h" by (auto simp: len_of_def fun_eq_iff)
  from Cons.prems have d: "distinct ns" and n: "n \<notin> set ns" by simp_all
  have "?p1 < 2 ^ 64" by simp
  from Cons.IH[OF d this, of ?h1] obtain h' where
    f: "fold_visit updateBSData_visitor ns (?h1, ?p1) = Some (h', (?p1 + sum_list (map (len_of ?h1) ns)) mod 2 ^ 64)"
    and fr: "\<And>m. h' m = (if m \<in> set ns then (?h1 m)\<lparr>bs_data := (bs_data (?h1 m))\<lparr>position := pos_of h' m\<rparr>\<rparr> else ?h1 m)"
    and ps: "\<And>i. i < length ns \<Longrightarrow> pos_of h' (ns ! i) = (if i = 0 then ?p1 else (?p1 + sum_list (map (len_of ?h1) (take i ns))) mod 2 ^ 64)"
    by blast
  have step: "updateBSData_visitor n (h, p) = Some (Continue, ?h1, ?p1)"
    by (simp add: updateBSData_visitor_def len_of_def)
  have tot: "(?p1 + sum_list (map (len_of h) ns)) mod 2 ^ 64 = (p + sum_list (map (len_of h) (n # ns))) mod 2 ^ 64"
    by (simp add: mod_add_left_eq add.assoc)
  have hn: "h' n = ?h1 n" using fr[of n] n by simp
  have A: "fold_visit updateBSData_visitor (n # ns) (h, p) = Some (h', (p + sum_list (map (len_of h) (n # ns))) mod 2 ^ 64)"
    using step f tot by (simp add: len1)
  have B: "h' m = (if m \<in> set (n # ns) then (h m)\<lparr>bs_data := (bs_data (h m))\<lparr>position := pos_of h' m\<rparr>\<rparr> else h m)" for m
  proof (cases "m = n")
    case True
    then show ?thesis using hn by (simp add: pos_of_def)
  next
    case False
    then show ?thesis using fr[of m] by simp
  qed
  have C: "pos_of h' ((n # ns) ! i) = (if i = 0 then p else (p + sum_list (map (len_of h) (take i (n # ns)))) mod 2 ^ 64)"
    if "i < length (n # ns)" for i
  proof (cases i)
    case 0
    then show ?thesis using hn by (simp add: pos_of_def)
  next
    case (Suc j)
    then have j: "j < length ns" using that by simp
    show ?thesis using ps[OF j] Suc
      by (simp add: len1 mod_add_left_eq add.assoc)
  qed
  show ?case using A B C by blast
qed

lemma sum_list_take_mono:
  fixes xs :: "nat list"
  shows "i \<le> j \<Longrightarrow> sum_list (take i xs) \<le> sum_list (take j xs)"
proof -
  assume "i \<le> j"
  then have "take j xs = take i xs @ take (j - i) (drop i xs)"
    by (metis le_add_diff_inverse take_add)
  then show ?thesis by simp
qed

lemma sum_list_take_le:
  fixes xs :: "nat list"
  shows "sum_list (take i xs) \<le> sum_list xs"
  using sum_list_take_mono[of i "length xs" xs] by (cases "i \<le> length xs") simp_all

lemma upto_break_no_break: "\<not> has_break dec ns \<Longrightarrow> upto_break dec ns = ns"
  by (induction ns) (auto simp: has_break_def)

lemma has_break_upto: "has_break dec (upto_break dec ns) = has_break dec ns"
  by (induction ns) (auto simp: has_break_def)

lemma upto_break_append:
  "upto_break dec (xs @ ys) =
     (if has_break dec xs then upto_break dec xs else xs @ upto_break dec ys)"
  by (induction xs) (auto simp: has_break_def)

lemma log_visitor_keeps: "visitor_keeps (Some (log_visitor dec))"
  by (auto simp: visitor_keeps_def keeps_children_def log_visitor_def)

lemma visit_log:
  "visit (Some (log_visitor dec)) n (e, h, log) = Some (dec n \<noteq> Continue, dec n, h, log @ [n])"
  by (cases "dec n") (simp_all add: visit_def log_visitor_def)

lemma has_break_append: "has_break dec (xs @ ys) = (has_break dec xs \<or> has_break dec ys)"
  by (simp add: has_break_def)

lemma walk_list_log_aux:
  assumes "\<And>t e log. t \<in> set ts \<Longrightarrow>
      \<exists>l e'. walk (Some (log_visitor dec)) t (e, h, log) =
            Some (l, e', h, log @ upto_break dec (pruned dec t)) \<and>
            (e' = Break \<longleftrightarrow> has_break dec (pruned dec t))"
  shows "\<exists>l e'. walk_list (Some (log_visitor dec)) ts (l0, e, h, log) =
            Some (l, e', h, log @ upto_break dec (concat (map (pruned dec) ts))) \<and>
            (ts \<noteq> [] \<longrightarrow> (e' = Break \<longleftrightarrow> has_break dec (concat (map (pruned dec) ts))))"
  using assms
proof (induction ts arbitrary: l0 e log)
  case Nil
  then show ?case by simp
next
  case (Cons t ts)
  from Cons.prems[of t e log] obtain l1 e1 where
    w: "walk (Some (log_visitor dec)) t (e, h, log) = Some (l1, e1, h, log @ upto_break dec (pruned dec t))"
    and b: "e1 = Break \<longleftrightarrow> has_break dec (pruned dec t)"
    by auto
  show ?case
  proof (cases "e1 = Break")
    case True
    then show ?thesis using w b
      by (simp add: upto_break_append has_break_append)
  next
    case False
    have nb: "\<not> has_break dec (pruned dec t)" using False b by simp
    from Cons.IH[of l1 e1 "log @ upto_break dec (pruned dec t)"] Cons.prems
    obtain l2 e2 where
      w2: "walk_list (Some (log_visitor dec)) ts (l1, e1, h, log @ upto_break dec (pruned dec t)) =
            Some (l2, e2, h, (log @ upto_break dec (pruned dec t)) @ upto_break dec (concat (map (pruned dec) ts)))"
      and b2: "ts \<noteq> [] \<longrightarrow> (e2 = Break \<longleftrightarrow> has_break dec (concat (map (pruned dec) ts)))"
      by (metis list.set_intros(2))
    show ?thesis
    proof (cases "ts = []")
      case True
      then show ?thesis using w False nb by (simp add: upto_break_no_break has_break_def)
    next
      case F2: False
      then show ?thesis using w w2 b2 False nb
        by (simp add: upto_break_append has_break_append upto_break_no_break)
    qed
  qed
qed

lemma walk_log:
  "\<exists>l e'. walk (Some (log_visitor dec)) t (e, h, log) =
            Some (l, e', h, log @ upto_break dec (pruned dec t)) \<and>
            (e' = Break \<longleftrightarrow> has_break dec (pruned dec t))"
proof (induction t arbitrary: e log)
  case (RNode n ts)
  show ?case
  proof (cases "dec n = Continue")
    case False
    then show ?thesis by (cases "dec n") (simp_all add: visit_log has_break_def)
  next
    case True
    show ?thesis
    proof (cases "ts = []")
      case T2: True
      then show ?thesis using True by (simp add: visit_log has_break_def)
    next
      case False
      from walk_list_log_aux[of ts dec h None Continue "log @ [n]", OF RNode.IH]
      obtain l e' where
        w: "walk_list (Some (log_visitor dec)) ts (None, Continue, h, log @ [n]) =
            Some (l, e', h, (log @ [n]) @ upto_break dec (concat (map (pruned dec) ts)))"
        and b: "e' = Break \<longleftrightarrow> has_break dec (concat (map (pruned dec) ts))"
        using False by blast
      show ?thesis using True False w b by (simp add: visit_log has_break_def)
    qed
  qed
qed

lemma pruned_all_continue: "(\<And>n. dec n = Continue) \<Longrightarrow> pruned dec t = preorder t"
  by (induction t) (simp cong: map_cong)

lemma spec_visited_all_continue:
  assumes "\<And>n. dec n = Continue"
  shows "spec_visited dec ts = preorder_forest ts"
proof -
  have "pruned dec = preorder"
    using pruned_all_continue[of dec] assms by (simp add: fun_eq_iff)
  moreover have "\<not> has_break dec ns" for ns
    using assms by (induction ns) (simp_all add: has_break_def)
  ultimately show ?thesis
    by (simp add: spec_visited_def preorder_forest_def upto_break_no_break)
qed


subsection \<open>Running the model on numerals\<close>

lemma descend_numeral:
  "descend (numeral k) fn root s =
     (case visit fn root s of
        None \<Rightarrow> None
      | Some (return_early, s') \<Rightarrow>
          if return_early then Some (Some root, s')
          else if children (fst (snd s') root) \<noteq> []
          then each_node (descend (pred_numeral k) fn) (children (fst (snd s') root)) (None, s')
          else Some (Some root, s'))"
  by (simp add: numeral_eq_Suc)

lemmas run_tree = Tree_append_def Tree_remove_def Tree_insert_def updateDepth_def updateBSData_def
  forEachNode_def updateDepth_visitor_def updateBSData_visitor_def visit_def last_index_i32_def
  cast_i32_def u64_def new_node_def vector_erase_def vector_insert_def decrement_from_def
  renumber_from_def descend_numeral

subsection \<open>The virtual-size computation\<close>

lemma calc_visitor_node:
  "calculateVirtualSize_visitor nc g n (h, l) =
     map_option (\<lambda>(nd, l'). (Continue, h(n := nd), l')) (calc_node nc g (h n) l)"
proof (cases "depth (h n) = 1")
  case True
  show ?thesis
  proof (cases "1 \<le> cv_collapsed_depth l \<or> \<not> cv_collapsed l")
    case T2: True
    then show ?thesis using True
      by (auto simp: calculateVirtualSize_visitor_def calc_node_def Let_def)
  next
    case False
    then show ?thesis using True
      by (auto simp: calculateVirtualSize_visitor_def calc_node_def Let_def)
  qed
next
  case False
  show ?thesis
  proof (cases "depth (h n) \<le> cv_collapsed_depth l \<or> \<not> cv_collapsed l")
    case T2: True
    then show ?thesis using False
      by (auto simp: calculateVirtualSize_visitor_def calc_node_def Let_def)
  next
    case F2: False
    then show ?thesis using False
      by (auto simp: calculateVirtualSize_visitor_def calc_node_def Let_def)
  qed
qed


lemma calc_node_fields:
  assumes "calc_node nc g nd l = Some (nd', l')"
  shows "children nd' = children nd" "depth nd' = depth nd" "is_collapsed nd' = is_collapsed nd"
    "columns nd' = columns nd" "parent nd' = parent nd"
  using assms by (auto simp: calc_node_def Let_def split: if_splits)

lemma calc_node_cong:
  assumes "calc_node nc g nd l = Some (a, la)"
    "depth nd2 = depth nd" "is_collapsed nd2 = is_collapsed nd" "columns nd2 = columns nd"
  shows "\<exists>b. calc_node nc g nd2 l = Some (b, la) \<and> bs_data b = bs_data a"
  using assms by (auto simp: calc_node_def Let_def split: if_splits)

lemma calc_visitor_only_continues: "only_continues (calculateVirtualSize_visitor nc g)"
  unfolding only_continues_def
proof (intro allI impI)
  fix n hs e hs'
  assume a: "calculateVirtualSize_visitor nc g n hs = Some (e, hs')"
  obtain h l where hs: "hs = (h, l)" by (cases hs)
  from a show "e = Continue" unfolding hs calc_visitor_node by auto
qed

lemma calc_visitor_keeps: "keeps_children (calculateVirtualSize_visitor nc g)"
  unfolding keeps_children_def
proof (intro allI impI)
  fix n h a e h' a' m
  assume a: "calculateVirtualSize_visitor nc g n (h, a) = Some (e, h', a')"
  then obtain nd where c: "calc_node nc g (h n) a = Some (nd, a')" and h': "h' = h(n := nd)"
    unfolding calc_visitor_node by auto
  from calc_node_fields(1)[OF c] h' show "children (h' m) = children (h m)" by simp
qed

lemma same_layout_input_trans:
  "same_layout_input h h' \<Longrightarrow> same_layout_input h' h'' \<Longrightarrow> same_layout_input h h''"
  by (simp add: same_layout_input_def)

lemma calc_fold:
  assumes "same_layout_input h h'"
    "fold_visit (calculateVirtualSize_visitor nc g) ns (h, l) = Some (hA, lA)"
  shows "\<exists>hB. fold_visit (calculateVirtualSize_visitor nc g) ns (h', l) = Some (hB, lA) \<and>
           same_layout_input h hA \<and> same_layout_input hA hB \<and>
           (\<forall>m\<in>set ns. bs_data (hB m) = bs_data (hA m)) \<and>
           (\<forall>m. m \<notin> set ns \<longrightarrow> bs_data (hB m) = bs_data (h' m) \<and> bs_data (hA m) = bs_data (h m))"
  using assms
proof (induction ns arbitrary: h h' l)
  case Nil
  then show ?case by (simp add: same_layout_input_def)
next
  case (Cons n ns)
  let ?F = "calculateVirtualSize_visitor nc g"
  obtain x where x: "?F n (h, l) = Some x"
    using Cons.prems(2) by (cases "?F n (h, l)") simp_all
  obtain e h1 l1 where xe: "x = (e, h1, l1)" by (cases x)
  have v: "?F n (h, l) = Some (e, h1, l1)" using x xe by simp
  have f: "fold_visit ?F ns (h1, l1) = Some (hA, lA)"
    using Cons.prems(2) v by simp
  from v obtain nd where c: "calc_node nc g (h n) l = Some (nd, l1)" and h1: "h1 = h(n := nd)"
    unfolding calc_visitor_node by auto
  have same: "depth (h' n) = depth (h n)" "is_collapsed (h' n) = is_collapsed (h n)"
    "columns (h' n) = columns (h n)"
    using Cons.prems(1) by (simp_all add: same_layout_input_def)
  from calc_node_cong[OF c same] obtain nd' where
    c': "calc_node nc g (h' n) l = Some (nd', l1)" and b: "bs_data nd' = bs_data nd"
    by blast
  let ?h1' = "h'(n := nd')"
  have v': "calculateVirtualSize_visitor nc g n (h', l) = Some (Continue, ?h1', l1)"
    unfolding calc_visitor_node using c' by simp
  have s01: "same_layout_input h h1"
    using calc_node_fields[OF c] h1 by (simp add: same_layout_input_def)
  have s1: "same_layout_input h1 ?h1'"
    using Cons.prems(1) calc_node_fields[OF c] calc_node_fields[OF c'] h1
    by (simp add: same_layout_input_def)
  from Cons.IH[OF s1 f] obtain hB where
    fB: "fold_visit (calculateVirtualSize_visitor nc g) ns (?h1', l1) = Some (hB, lA)"
    and sA: "same_layout_input h1 hA" and sB: "same_layout_input hA hB"
    and eq: "\<forall>m\<in>set ns. bs_data (hB m) = bs_data (hA m)"
    and fr: "\<forall>m. m \<notin> set ns \<longrightarrow> bs_data (hB m) = bs_data (?h1' m) \<and> bs_data (hA m) = bs_data (h1 m)"
    by blast
  have A: "fold_visit (calculateVirtualSize_visitor nc g) (n # ns) (h', l) = Some (hB, lA)"
    using v' fB by simp
  have B: "same_layout_input h hA" by (rule same_layout_input_trans[OF s01 sA])
  have C: "\<forall>m\<in>set (n # ns). bs_data (hB m) = bs_data (hA m)"
  proof
    fix m assume m: "m \<in> set (n # ns)"
    show "bs_data (hB m) = bs_data (hA m)"
    proof (cases "m \<in> set ns")
      case True
      with eq show ?thesis by simp
    next
      case False
      with m have mn: "m = n" by simp
      from fr False have "bs_data (hB m) = bs_data (?h1' m)" "bs_data (hA m) = bs_data (h1 m)"
        by simp_all
      then show ?thesis using mn b h1 by simp
    qed
  qed
  have D: "\<forall>m. m \<notin> set (n # ns) \<longrightarrow> bs_data (hB m) = bs_data (h' m) \<and> bs_data (hA m) = bs_data (h m)"
  proof (intro allI impI)
    fix m assume "m \<notin> set (n # ns)"
    then have mn: "m \<noteq> n" and ms: "m \<notin> set ns" by simp_all
    from fr ms have "bs_data (hB m) = bs_data (?h1' m)" "bs_data (hA m) = bs_data (h1 m)" by simp_all
    then show "bs_data (hB m) = bs_data (h' m) \<and> bs_data (hA m) = bs_data (h m)"
      using mn h1 by simp
  qed
  show ?case
    by (rule exI[of _ hB]) (intro conjI A B sB C D)
qed

lemma shaped_forest_cong_children:
  assumes "\<And>a. children (h' a) = children (h a)"
  shows "shaped_forest h' rts ts = shaped_forest h rts ts"
proof -
  have "list_all (shaped h') ts = list_all (shaped h) ts"
    unfolding list_all_iff by (intro ball_cong refl shaped_cong_children) (rule assms)
  then show ?thesis by (simp add: shaped_forest_def)
qed

lemma fold_visit_children:
  "keeps_children f \<Longrightarrow> fold_visit f ns (h, a) = Some (h', a') \<Longrightarrow>
   children (h' m) = children (h m)"
proof (induction ns arbitrary: h a)
  case Nil
  then show ?case by simp
next
  case (Cons n ns)
  obtain x where x: "f n (h, a) = Some x"
    using Cons.prems(2) by (cases "f n (h, a)") simp_all
  obtain e h1 a1 where xe: "x = (e, h1, a1)" by (cases x)
  have "fold_visit f ns (h1, a1) = Some (h', a')" using Cons.prems(2) x xe by simp
  from Cons.IH[OF Cons.prems(1) this] keeps_childrenD[OF Cons.prems(1) x[unfolded xe]]
  show ?case by simp
qed

lemma calc_same:
  assumes mv: "m_model v = Some t" and mv': "m_model v' = Some t"
    and cols: "length (view_columns v') = length (view_columns v)"
    and grid: "m_grid_line_width v' = m_grid_line_width v"
    and csz: "m_children_size_h v' = m_children_size_h v"
    and sh: "shaped_forest h (roots t) ts" and fu: "height_forest ts \<le> fuel"
    and sl: "same_layout_input h h'" and ch: "\<And>a. children (h' a) = children (h a)"
    and run: "calculateVirtualSize fuel (h, v) = Some (hA, vA)"
  shows "\<exists>hB vB. calculateVirtualSize fuel (h', v') = Some (hB, vB) \<and>
           (\<forall>m\<in>set (preorder_forest ts). bs_data (hB m) = bs_data (hA m)) \<and>
           (\<forall>m. m \<notin> set (preorder_forest ts) \<longrightarrow>
                bs_data (hB m) = bs_data (h' m) \<and> bs_data (hA m) = bs_data (h m)) \<and>
           same_layout_input h hA \<and> (\<forall>a. children (hA a) = children (h a)) \<and>
           m_model vA = Some t \<and> length (view_columns vA) = length (view_columns v) \<and>
           m_grid_line_width vA = m_grid_line_width v \<and>
           m_children_size_h vA = m_children_size_h v"
proof -
  let ?F = "calculateVirtualSize_visitor (length (view_columns v)) (m_grid_line_width v)"
  let ?l0 = "\<lparr>cv_collapsed = False, cv_collapsed_depth = - 1, cv_parent_index = 0,
              cv_scroll_offset = 0, cv_virtual_h = m_children_size_h v\<rparr>"
  let ?ns = "preorder_forest ts"
  have sh': "shaped_forest h' (roots t) ts"
    using sh shaped_forest_cong_children[of h' h, OF ch] by simp
  have fe: "forEachNode fuel (roots t) (Some ?F) (h, ?l0) = fold_visit ?F ?ns (h, ?l0)"
    by (rule forEachNode_fold[OF calc_visitor_only_continues calc_visitor_keeps sh fu])
  have fe': "forEachNode fuel (roots t) (Some ?F) (h', ?l0) = fold_visit ?F ?ns (h', ?l0)"
    by (rule forEachNode_fold[OF calc_visitor_only_continues calc_visitor_keeps sh' fu])
  have unf: "calculateVirtualSize fuel (h, v) =
      (case fold_visit ?F ?ns (h, ?l0) of
         None \<Rightarrow> None
       | Some (hh, l) \<Rightarrow> Some (hh, v\<lparr>m_virtual_size_h := cv_virtual_h l,
                              m_virtual_size_changed := False, m_auto_size_columns := False\<rparr>))"
    using mv fe by (simp add: calculateVirtualSize_def split: option.splits)
  have unf': "calculateVirtualSize fuel (h', v') =
      (case fold_visit ?F ?ns (h', ?l0) of
         None \<Rightarrow> None
       | Some (hh, l) \<Rightarrow> Some (hh, v'\<lparr>m_virtual_size_h := cv_virtual_h l,
                              m_virtual_size_changed := False, m_auto_size_columns := False\<rparr>))"
    using mv' fe' cols grid csz by (simp add: calculateVirtualSize_def split: option.splits)
  obtain x where x: "fold_visit ?F ?ns (h, ?l0) = Some x"
    using run unfolding unf by (cases "fold_visit ?F ?ns (h, ?l0)") simp_all
  obtain hA' lA where xe: "x = (hA', lA)" by (cases x)
  have hA: "hA' = hA" and vA: "vA = v\<lparr>m_virtual_size_h := cv_virtual_h lA,
                              m_virtual_size_changed := False, m_auto_size_columns := False\<rparr>"
    using run unfolding unf x xe by simp_all
  have fA: "fold_visit ?F ?ns (h, ?l0) = Some (hA, lA)" using x xe hA by simp
  from calc_fold[OF sl fA] obtain hB where
    fB: "fold_visit ?F ?ns (h', ?l0) = Some (hB, lA)"
    and s1: "same_layout_input h hA"
    and eq: "\<forall>m\<in>set ?ns. bs_data (hB m) = bs_data (hA m)"
    and fr: "\<forall>m. m \<notin> set ?ns \<longrightarrow> bs_data (hB m) = bs_data (h' m) \<and> bs_data (hA m) = bs_data (h m)"
    by blast
  have runB: "calculateVirtualSize fuel (h', v') = Some (hB, v'\<lparr>m_virtual_size_h := cv_virtual_h lA,
                              m_virtual_size_changed := False, m_auto_size_columns := False\<rparr>)"
    unfolding unf' fB by simp
  have chA: "\<forall>a. children (hA a) = children (h a)"
    using fold_visit_children[OF calc_visitor_keeps fA] by blast
  show ?thesis
    using runB eq fr s1 chA vA mv by (intro exI[of _ hB] exI) (simp)
qed

lemma collapse_result:
  "collapse (Some n) (h, v) = (h', v') \<Longrightarrow>
   (\<forall>a. children (h' a) = children (h a) \<and> depth (h' a) = depth (h a) \<and>
        columns (h' a) = columns (h a) \<and> bs_data (h' a) = bs_data (h a) \<and>
        is_collapsed (h' a) = (if a = n \<and> children (h n) \<noteq> [] then True else is_collapsed (h a))) \<and>
   m_model v' = m_model v \<and> view_columns v' = view_columns v \<and>
   m_grid_line_width v' = m_grid_line_width v \<and> m_children_size_h v' = m_children_size_h v"
  by (auto simp: collapse_def split: if_splits)

lemma expand_result:
  "expand (Some n) (h, v) = (h', v') \<Longrightarrow>
   (\<forall>a. children (h' a) = children (h a) \<and> depth (h' a) = depth (h a) \<and>
        columns (h' a) = columns (h a) \<and> bs_data (h' a) = bs_data (h a) \<and>
        is_collapsed (h' a) = (if a = n \<and> children (h n) \<noteq> [] then False else is_collapsed (h a))) \<and>
   m_model v' = m_model v \<and> view_columns v' = view_columns v \<and>
   m_grid_line_width v' = m_grid_line_width v \<and> m_children_size_h v' = m_children_size_h v"
  by (auto simp: expand_def split: if_splits)

lemma same_layout_input_refl: "same_layout_input h h"
  by (simp add: same_layout_input_def)

lemma same_layout_inputD:
  "same_layout_input h h' \<Longrightarrow> depth (h' m) = depth (h m) \<and> is_collapsed (h' m) = is_collapsed (h m) \<and>
          columns (h' m) = columns (h m)"
  by (simp add: same_layout_input_def)

lemma same_layout_inputI:
  "(\<And>m. depth (h' m) = depth (h m) \<and> is_collapsed (h' m) = is_collapsed (h m) \<and>
          columns (h' m) = columns (h m)) \<Longrightarrow> same_layout_input h h'"
  by (simp add: same_layout_input_def)

lemmas run_view = calculateVirtualSize_def calculateVirtualSize_visitor_def row_height_def
  forEachNode_def visit_def descend_numeral u64_def ex_view_def ex_heap_def ex_node_def
  ex_column_def collapse_def expand_def

subsection \<open>Binary search on a well-formed index\<close>

lemma running_append:
  "running h p (xs @ ys) = (running h p xs \<and> running h (p + extent h xs) ys)"
  by (induction xs arbitrary: p) (auto simp: extent_def add.assoc)

lemma extent_append: "extent h (xs @ ys) = extent h xs + extent h ys"
  by (simp add: extent_def)

lemma extent_Cons: "extent h (n # ns) = len_of h n + extent h ns"
  by (simp add: extent_def)

lemma preorder_forest_Cons: "preorder_forest (t # ts) = preorder t @ preorder_forest ts"
  by (simp add: preorder_forest_def)

lemma preorder_forest_Nil: "preorder_forest [] = []"
  by (simp add: preorder_forest_def)

lemma preorder_RNode: "preorder (RNode n ts) = n # preorder_forest ts"
  by (simp add: preorder_forest_def)

text \<open>The position of the i-th sibling.\<close>

lemma running_sibling:
  "running h p (preorder_forest ts) \<Longrightarrow> i < length ts \<Longrightarrow>
   pos_of h (root_of (ts ! i)) = p + extent h (preorder_forest (take i ts)) \<and>
   running h (p + extent h (preorder_forest (take i ts))) (preorder (ts ! i))"
proof (induction ts arbitrary: p i)
  case Nil
  then show ?case by simp
next
  case (Cons t ts)
  obtain n cs where t: "t = RNode n cs" by (cases t)
  from Cons.prems(1) have r1: "running h p (preorder t)"
    and r2: "running h (p + extent h (preorder t)) (preorder_forest ts)"
    by (simp_all add: preorder_forest_Cons running_append)
  show ?case
  proof (cases i)
    case 0
    then show ?thesis using r1 t by (simp add: preorder_forest_Nil extent_def)
  next
    case (Suc j)
    then have j: "j < length ts" using Cons.prems(2) by simp
    from Cons.IH[OF r2 j] show ?thesis using Suc
      by (simp add: preorder_forest_Cons extent_append add.assoc)
  qed
qed


lemma bs_loop_correct:
  assumes "lower \<le> upper" "upper < length rts" "pos_of h (rts ! lower) \<le> target"
    "Suc upper < length rts \<longrightarrow> target \<le> pos_of h (rts ! Suc upper)"
  shows "\<exists>mid. bs_loop h rts target lower upper mp = Some (mid, bs_data (h (rts ! mid))) \<and>
           mid < length rts \<and> pos_of h (rts ! mid) \<le> target \<and>
           (Suc mid < length rts \<longrightarrow> target \<le> pos_of h (rts ! Suc mid))"
  using assms
proof (induction "Suc upper - lower" arbitrary: lower upper mp rule: less_induct)
  case less
  let ?mid = "(lower + upper) div 2"
  let ?point = "bs_data (h (rts ! ?mid))"
  have m1: "lower \<le> ?mid" and m2: "?mid \<le> upper" using less.prems(1) by simp_all
  have m3: "?mid < length rts" using m2 less.prems(2) by simp
  have pp: "position ?point = pos_of h (rts ! ?mid)" by (simp add: pos_of_def)
  show ?case
  proof (cases "target < position ?point")
    case True
    have ne: "?mid \<noteq> lower"
    proof
      assume "?mid = lower"
      then have "pos_of h (rts ! ?mid) \<le> target" using less.prems(3) by simp
      with True pp show False by simp
    qed
    then have lt: "lower < ?mid" using m1 by simp
    then have m0: "?mid \<noteq> 0" by simp
    have unf: "bs_loop h rts target lower upper mp =
               bs_loop h rts target lower (?mid - 1) (?mid, ?point)"
      using less.prems(1) m3 True m0 by (subst bs_loop.simps) (simp add: Let_def)
    have a1: "Suc (?mid - 1) - lower < Suc upper - lower" using lt m2 by simp
    have a2: "lower \<le> ?mid - 1" using lt by simp
    have a3: "?mid - 1 < length rts" using m3 by simp
    have a4: "Suc (?mid - 1) < length rts \<longrightarrow> target \<le> pos_of h (rts ! Suc (?mid - 1))"
      using True pp m0 by simp
    from less.hyps[OF a1 a2 a3 less.prems(3) a4, of "(?mid, ?point)"] show ?thesis
      unfolding unf .
  next
    case False
    then have le: "pos_of h (rts ! ?mid) \<le> target" using pp by simp
    let ?ub = "if length rts - 1 > ?mid then position (bs_data (h (rts ! (?mid + 1))))
               else (position ?point + length' ?point) mod 2 ^ 64"
    show ?thesis
    proof (cases "target > ?ub")
      case F2: False
      have unf: "bs_loop h rts target lower upper mp = Some (?mid, ?point)"
        using less.prems(1) m3 False F2 by (subst bs_loop.simps) (simp add: Let_def)
      have "Suc ?mid < length rts \<longrightarrow> target \<le> pos_of h (rts ! Suc ?mid)"
      proof
        assume "Suc ?mid < length rts"
        then have "length rts - 1 > ?mid" by simp
        with F2 show "target \<le> pos_of h (rts ! Suc ?mid)" by (simp add: pos_of_def)
      qed
      then show ?thesis using unf m3 le by blast
    next
      case True
      have unf: "bs_loop h rts target lower upper mp =
               bs_loop h rts target (?mid + 1) upper (?mid, ?point)"
        using less.prems(1) m3 False True by (subst bs_loop.simps) (simp add: Let_def)
      show ?thesis
      proof (cases "?mid + 1 \<le> upper")
        case T3: True
        have b1: "Suc upper - (?mid + 1) < Suc upper - lower" using m1 m2 by simp
        have big: "length rts - 1 > ?mid" using T3 less.prems(2) by simp
        have b3: "pos_of h (rts ! (?mid + 1)) \<le> target" using True big by (simp add: pos_of_def)
        from less.hyps[OF b1 T3 less.prems(2) b3 less.prems(4), of "(?mid, ?point)"] show ?thesis
          unfolding unf .
      next
        case F3: False
        then have mu: "?mid = upper" using m2 by simp
        have unf2: "bs_loop h rts target (?mid + 1) upper (?mid, ?point) = Some (?mid, ?point)"
          using F3 by (subst bs_loop.simps) simp
        have "\<not> Suc ?mid < length rts"
        proof
          assume a: "Suc ?mid < length rts"
          then have "target \<le> pos_of h (rts ! Suc upper)" using less.prems(4) mu by simp
          moreover have "length rts - 1 > ?mid" using a by simp
          then have "target > pos_of h (rts ! Suc ?mid)" using True by (simp add: pos_of_def)
          ultimately show False using mu by simp
        qed
        then show ?thesis using unf unf2 m3 le by simp
      qed
    qed
  qed
qed

lemma preorder_forest_append:
  "preorder_forest (xs @ ys) = preorder_forest xs @ preorder_forest ys"
  by (simp add: preorder_forest_def)

lemma preorder_forest_split:
  "i < length ts \<Longrightarrow>
   preorder_forest ts =
     preorder_forest (take i ts) @ preorder (ts ! i) @ preorder_forest (drop (Suc i) ts)"
proof -
  assume "i < length ts"
  then have "ts = take i ts @ ts ! i # drop (Suc i) ts" by (rule id_take_nth_drop)
  then have "preorder_forest ts = preorder_forest (take i ts @ ts ! i # drop (Suc i) ts)" by simp
  then show ?thesis by (simp only: preorder_forest_append preorder_forest_Cons)
qed

lemma height_forest_ge: "t \<in> set ts \<Longrightarrow> height t \<le> height_forest ts"
  unfolding height_forest_def by (rule height_le_fold)

lemma height_RNode: "height (RNode n cs) = Suc (height_forest cs)"
  by (simp add: height_forest_def)

lemma binarySearch_siblings:
  assumes "list_all (shaped h) ts" "running h p (preorder_forest ts)"
    "p + extent h (preorder_forest ts) < 2 ^ 64" "height_forest ts < fuel" "ts \<noteq> []" "p \<le> target"
  shows "if target \<le> p + extent h (preorder_forest ts)
         then \<exists>i r. binarySearch fuel h (map root_of ts) target = Some (i, Some r) \<and>
                r \<in> set (preorder_forest ts) \<and> pos_of h r \<le> target \<and>
                target \<le> pos_of h r + len_of h r
         else binarySearch fuel h (map root_of ts) target = Some (0, None)"
  using assms
proof (induction fuel arbitrary: ts p)
  case 0
  then show ?case by simp
next
  case (Suc k)
  let ?rts = "map root_of ts"
  let ?E = "p + extent h (preorder_forest ts)"
  have n0: "?rts \<noteq> []" using Suc.prems(5) by simp
  have p0: "pos_of h (?rts ! 0) \<le> target"
    using running_sibling[OF Suc.prems(2), of 0] Suc.prems(5,6)
    by (simp add: preorder_forest_Nil extent_def)
  have l1: "(0::nat) \<le> length ?rts - 1" by simp
  have l2: "length ?rts - 1 < length ?rts" using n0 by simp
  have l4: "Suc (length ?rts - 1) < length ?rts \<longrightarrow> target \<le> pos_of h (?rts ! Suc (length ?rts - 1))"
    using n0 by simp
  from bs_loop_correct[OF l1 l2 p0 l4, of "(0, \<lparr>position = 0, length' = 0\<rparr>)"]
  obtain mid where
    loop: "bs_loop h ?rts target 0 (length ?rts - 1) (0, \<lparr>position = 0, length' = 0\<rparr>) =
           Some (mid, bs_data (h (?rts ! mid)))"
    and mid: "mid < length ?rts" and ple: "pos_of h (?rts ! mid) \<le> target"
    and nxt: "Suc mid < length ?rts \<longrightarrow> target \<le> pos_of h (?rts ! Suc mid)"
    by blast
  have midt: "mid < length ts" using mid by simp
  obtain m cs where tm: "ts ! mid = RNode m cs" by (cases "ts ! mid")
  have rm: "?rts ! mid = m" using midt tm by simp
  let ?P = "p + extent h (preorder_forest (take mid ts))"
  from running_sibling[OF Suc.prems(2) midt]
  have posm: "pos_of h m = ?P" and runm: "running h ?P (preorder (ts ! mid))"
    using tm by simp_all
  have runc: "running h (?P + len_of h m) (preorder_forest cs)"
    using runm tm by (simp add: preorder_RNode posm del: preorder.simps)
  let ?X = "extent h (preorder (ts ! mid))"
  have Xeq: "?X = len_of h m + extent h (preorder_forest cs)"
    using tm by (simp add: preorder_RNode extent_Cons del: preorder.simps)
  have Esplit: "?E = ?P + ?X + extent h (preorder_forest (drop (Suc mid) ts))"
    using preorder_forest_split[OF midt] by (simp add: extent_append)
  have PX: "?P + ?X \<le> ?E" using Esplit by simp
  have last: "?P + ?X = ?E" if "\<not> Suc mid < length ts"
  proof -
    from that midt have "drop (Suc mid) ts = []" by simp
    then show ?thesis using Esplit by (simp add: preorder_forest_Nil extent_def)
  qed
  have next_pos: "target \<le> ?P + ?X" if a: "Suc mid < length ts"
  proof -
    from running_sibling[OF Suc.prems(2) a]
    have "pos_of h (root_of (ts ! Suc mid)) = p + extent h (preorder_forest (take (Suc mid) ts))"
      by simp
    moreover have "take (Suc mid) ts = take mid ts @ [ts ! mid]"
      using midt by (simp add: take_Suc_conv_app_nth)
    ultimately have "pos_of h (?rts ! Suc mid) = ?P + ?X"
      using a by (simp add: preorder_forest_append preorder_forest_Cons preorder_forest_Nil extent_append)
    with nxt a show ?thesis by simp
  qed
  have iff: "target \<le> ?E \<longleftrightarrow> target \<le> ?P + ?X"
    using PX last next_pos by (cases "Suc mid < length ts") auto
  have nomod: "(pos_of h m + len_of h m) mod 2 ^ 64 = pos_of h m + len_of h m"
    using PX Xeq Suc.prems(3) posm by simp
  have shm: "shaped h (RNode m cs)"
    using Suc.prems(1) midt tm by (metis list_all_length)
  then have chm: "children (h m) = map root_of cs" and shc: "list_all (shaped h) cs" by simp_all
  have min: "m \<in> set (preorder_forest ts)"
    using preorder_forest_split[OF midt] tm by (simp add: preorder_RNode del: preorder.simps)
  have sub: "set (preorder_forest cs) \<subseteq> set (preorder_forest ts)"
    using preorder_forest_split[OF midt] tm by (auto simp: preorder_RNode simp del: preorder.simps)
  have unf: "binarySearch (Suc k) h ?rts target =
       (if pos_of h m \<le> target \<and> pos_of h m + len_of h m \<ge> target
        then Some (mid, Some m)
        else if cs \<noteq> [] then binarySearch k h (map root_of cs) target
        else Some (0, None))"
    using n0 loop rm chm nomod by (simp add: pos_of_def len_of_def)
  show ?case
  proof (cases "target \<le> pos_of h m + len_of h m")
    case True
    then have "target \<le> ?E" using posm PX Xeq by simp
    then show ?thesis unfolding unf using True ple rm min by auto
  next
    case False
    then have gt: "?P + len_of h m < target" using posm by simp
    show ?thesis
    proof (cases "cs = []")
      case True
      then have "?X = len_of h m" using Xeq by (simp add: preorder_forest_Nil extent_def)
      then have "\<not> target \<le> ?E" using iff gt by simp
      then show ?thesis unfolding unf using False True by simp
    next
      case F2: False
      have hk: "height_forest cs < k"
      proof -
        have "ts ! mid \<in> set ts" using midt by simp
        from height_forest_ge[OF this] tm have "Suc (height_forest cs) \<le> height_forest ts"
          by (simp add: height_forest_def)
        with Suc.prems(4) show ?thesis by simp
      qed
      have bound: "(?P + len_of h m) + extent h (preorder_forest cs) < 2 ^ 64"
        using PX Xeq Suc.prems(3) by simp
      have le: "?P + len_of h m \<le> target" using gt by simp
      note ih = Suc.IH[OF shc runc bound hk F2 le]
      have e2: "(?P + len_of h m) + extent h (preorder_forest cs) = ?P + ?X" using Xeq by simp
      show ?thesis
      proof (cases "target \<le> ?E")
        case T3: True
        then have "target \<le> (?P + len_of h m) + extent h (preorder_forest cs)"
          using iff e2 by simp
        with ih obtain i r where
          "binarySearch k h (map root_of cs) target = Some (i, Some r)"
          "r \<in> set (preorder_forest cs)" "pos_of h r \<le> target" "target \<le> pos_of h r + len_of h r"
          by auto
        then show ?thesis unfolding unf using False F2 T3 sub by auto
      next
        case F3: False
        then have "\<not> target \<le> (?P + len_of h m) + extent h (preorder_forest cs)"
          using iff e2 by simp
        with ih have "binarySearch k h (map root_of cs) target = Some (0, None)" by simp
        then show ?thesis unfolding unf using False F2 F3 by simp
      qed
    qed
  qed
qed

lemma running_nth:
  "running h p ns \<Longrightarrow> i < length ns \<Longrightarrow> pos_of h (ns ! i) = p + extent h (take i ns)"
proof (induction ns arbitrary: p i)
  case Nil
  then show ?case by simp
next
  case (Cons n ns)
  show ?case
  proof (cases i)
    case 0
    then show ?thesis using Cons.prems by (simp add: extent_def)
  next
    case (Suc j)
    then show ?thesis using Cons.prems Cons.IH[of "p + len_of h n" j]
      by (simp add: extent_def)
  qed
qed

lemma running_before:
  assumes "running h p ns" "i < j" "j < length ns"
  shows "pos_of h (ns ! i) + len_of h (ns ! i) \<le> pos_of h (ns ! j)"
proof -
  have i: "i < length ns" using assms(2,3) by simp
  have "take j ns = take (Suc i) ns @ take (j - Suc i) (drop (Suc i) ns)"
    using assms(2) by (metis Suc_leI le_add_diff_inverse take_add)
  then have "extent h (take j ns) = extent h (take (Suc i) ns) + extent h (take (j - Suc i) (drop (Suc i) ns))"
    by (simp add: extent_append)
  moreover have "extent h (take (Suc i) ns) = extent h (take i ns) + len_of h (ns ! i)"
    using i by (simp add: take_Suc_conv_app_nth extent_def)
  ultimately show ?thesis
    using running_nth[OF assms(1) i] running_nth[OF assms(1) assms(3)] by simp
qed

lemma running_unique:
  assumes "running h p ns" "r \<in> set ns" "n \<in> set ns"
    "pos_of h r \<le> target" "target \<le> pos_of h r + len_of h r"
    "pos_of h n < target" "target < pos_of h n + len_of h n"
  shows "r = n"
proof -
  from assms(2) obtain i where i: "i < length ns" "ns ! i = r" by (auto simp: in_set_conv_nth)
  from assms(3) obtain j where j: "j < length ns" "ns ! j = n" by (auto simp: in_set_conv_nth)
  have "\<not> i < j"
  proof
    assume "i < j"
    from running_before[OF assms(1) this j(1)] i j assms(5,6) show False by simp
  qed
  moreover have "\<not> j < i"
  proof
    assume "j < i"
    from running_before[OF assms(1) this i(1)] i j assms(4,7) show False by simp
  qed
  ultimately have "i = j" by simp
  with i j show ?thesis by simp
qed

lemma binarySearch_numeral:
  "binarySearch (numeral k) h rts target =
     (if rts = [] then Some (0, None)
      else (case bs_loop h rts target 0 (length rts - 1) (0, \<lparr>position = 0, length' = 0\<rparr>) of
              None \<Rightarrow> None
            | Some (mid, point) \<Rightarrow>
                if position point \<le> target \<and> (position point + length' point) mod 2 ^ 64 \<ge> target
                then Some (mid, Some (rts ! mid))
                else if children (h (rts ! mid)) \<noteq> []
                then binarySearch (pred_numeral k) h (children (h (rts ! mid))) target
                else Some (0, None)))"
  by (simp add: numeral_eq_Suc)

lemma extent_take_le: "extent h (take k ns) \<le> extent h ns"
proof -
  have "map (len_of h) (take k ns) = take k (map (len_of h) ns)" by (simp add: take_map)
  then show ?thesis
    using sum_list_take_le[of k "map (len_of h) ns"] by (simp only: extent_def)
qed

subsection \<open>Mutations keep the links\<close>

lemma same_links_refl: "same_links h h"
  by (simp add: same_links_def)

lemma same_links_trans: "same_links h g \<Longrightarrow> same_links g k \<Longrightarrow> same_links h k"
  by (simp add: same_links_def)

lemma same_linksD:
  "same_links h h' \<Longrightarrow> parent (h' a) = parent (h a) \<and> parent_index (h' a) = parent_index (h a) \<and>
          children (h' a) = children (h a)"
  by (simp add: same_links_def)

lemma fold_visit_links:
  assumes "\<And>n g a. n \<in> set ns \<Longrightarrow> same_links h g \<Longrightarrow>
             \<exists>e g' a'. f n (g, a) = Some (e, g', a') \<and> same_links g g'"
    and "same_links h g"
  shows "\<exists>h' a'. fold_visit f ns (g, a) = Some (h', a') \<and> same_links h h'"
  using assms
proof (induction ns arbitrary: g a)
  case Nil
  then show ?case by simp
next
  case (Cons n ns)
  have "n \<in> set (n # ns)" by simp
  from Cons.prems(1)[OF this Cons.prems(2), of a] obtain e g' a' where
    s: "f n (g, a) = Some (e, g', a')" and l: "same_links g g'" by blast
  have l2: "same_links h g'" by (rule same_links_trans[OF Cons.prems(2) l])
  have st: "\<And>n g a. n \<in> set ns \<Longrightarrow> same_links h g \<Longrightarrow>
             \<exists>e g' a'. f n (g, a) = Some (e, g', a') \<and> same_links g g'"
    using Cons.prems(1) by simp
  from Cons.IH[OF st l2, of a'] obtain h' a'' where
    "fold_visit f ns (g', a') = Some (h', a'')" "same_links h h'" by blast
  then show ?case using s by simp
qed

lemma updateBSData_links:
  assumes "shaped_forest h rts ts" "height_forest ts \<le> fuel"
  shows "\<exists>h' total. updateBSData fuel rts h = Some (h', total) \<and> same_links h h'"
proof -
  have "\<exists>e g' a'. updateBSData_visitor n (g, a) = Some (e, g', a') \<and> same_links g g'" for n g a
    by (simp add: updateBSData_visitor_def same_links_def)
  from fold_visit_links[of "preorder_forest ts" h updateBSData_visitor h 0, OF this same_links_refl]
  show ?thesis
    unfolding updateBSData_def
    using forEachNode_fold[OF updateBSData_visitor_only_continues updateBSData_visitor_keeps assms, of 0]
    by simp
qed

lemma updateDepth_visitor_only_continues: "only_continues updateDepth_visitor"
  by (auto simp: only_continues_def updateDepth_visitor_def split: if_splits option.splits)

lemma updateDepth_visitor_links:
  "updateDepth_visitor n (g, d) = Some (e, g', d') \<Longrightarrow> same_links g g'"
  by (auto simp: updateDepth_visitor_def same_links_def split: if_splits option.splits)

lemma updateDepth_visitor_keeps: "keeps_children updateDepth_visitor"
  unfolding keeps_children_def using updateDepth_visitor_links same_linksD by blast

lemma updateDepth_visitor_Some:
  "parent_index (g n) = 0 \<or> parent (g n) \<noteq> None \<Longrightarrow>
   \<exists>e g' d'. updateDepth_visitor n (g, d) = Some (e, g', d')"
  by (auto simp: updateDepth_visitor_def split: option.splits)

lemma updateDepth_links:
  assumes sh: "shaped h tn" and hf: "height tn \<le> Suc fuel"
    and ok: "\<And>m. m \<in> set (preorder_forest (subtrees tn)) \<Longrightarrow>
                 parent_index (h m) = 0 \<or> parent (h m) \<noteq> None"
  shows "\<exists>h'. updateDepth fuel par (root_of tn) h = Some h' \<and> same_links h h'"
proof -
  obtain n cs where tn: "tn = RNode n cs" by (cases tn)
  have run: "\<exists>h'. map_option fst (forEachNode fuel (children (g n)) (Some updateDepth_visitor) (g, d)) = Some h' \<and> same_links h h'"
    if g: "same_links h g" for g d
  proof -
    have shg: "shaped_forest g (children (g n)) cs"
    proof -
      have "list_all (shaped g) cs = list_all (shaped h) cs"
        unfolding list_all_iff
        by (intro ball_cong refl shaped_cong_children) (use same_linksD[OF g] in simp)
      then show ?thesis using sh tn same_linksD[OF g, of n] by (simp add: shaped_forest_def)
    qed
    have hc: "height_forest cs \<le> fuel" using hf tn by (simp add: height_forest_def)
    have step: "\<exists>e g'' a'. updateDepth_visitor m (g', a) = Some (e, g'', a') \<and> same_links g' g''"
      if m: "m \<in> set (preorder_forest cs)" and l: "same_links g g'" for m g' a
    proof -
      have "parent_index (g' m) = 0 \<or> parent (g' m) \<noteq> None"
        using ok[of m] m tn same_linksD[OF l, of m] same_linksD[OF g, of m] by simp
      from updateDepth_visitor_Some[of g' m a, OF this] obtain e g'' d' where
        s: "updateDepth_visitor m (g', a) = Some (e, g'', d')" by blast
      from updateDepth_visitor_links[OF s] s show ?thesis by blast
    qed
    from fold_visit_links[of "preorder_forest cs" g updateDepth_visitor g d, OF step same_links_refl]
    obtain h' a' where f: "fold_visit updateDepth_visitor (preorder_forest cs) (g, d) = Some (h', a')"
      and l: "same_links g h'" by blast
    have "forEachNode fuel (children (g n)) (Some updateDepth_visitor) (g, d) = Some (h', a')"
      using forEachNode_fold[OF updateDepth_visitor_only_continues updateDepth_visitor_keeps shg hc, of d] f
      by simp
    then show ?thesis using same_links_trans[OF g l] by simp
  qed
  have l1: "same_links h (h(n := (h n)\<lparr>depth := x\<rparr>))" for x
    by (simp add: same_links_def)
  show ?thesis
  proof (cases par)
    case None
    show ?thesis
    proof (cases "depth (h n) \<noteq> 1")
      case True
      from run[OF l1[of 1], of 1] show ?thesis using None True tn
        by (simp add: updateDepth_def Let_def)
    next
      case False
      then show ?thesis using None tn by (simp add: updateDepth_def same_links_refl)
    qed
  next
    case (Some p)
    show ?thesis
    proof (cases "depth (h n) \<noteq> depth (h p) + 1")
      case True
      from run[OF l1[of "depth (h p) + 1"]] show ?thesis using Some True tn
        by (simp add: updateDepth_def Let_def)
    next
      case False
      then show ?thesis using Some tn by (simp add: updateDepth_def same_links_refl)
    qed
  qed
qed

lemma cast_i32_id: "0 \<le> x \<Longrightarrow> x < 2 ^ 31 \<Longrightarrow> cast_i32 x = x"
  by (simp add: cast_i32_def)

lemma last_index_i32: "v \<noteq> [] \<Longrightarrow> length v \<le> 2 ^ 31 \<Longrightarrow> last_index_i32 v = int (length v) - 1"
proof -
  assume a: "v \<noteq> []" "length v \<le> 2 ^ 31"
  then have l: "0 < length v" by simp
  have "int (length v) - 1 < 2 ^ 64" using a(2) by simp
  moreover have "0 \<le> int (length v) - 1" using l by simp
  ultimately have "int (u64 (int (length v) - 1)) = int (length v) - 1" by (simp add: u64_def)
  moreover have "int (length v) - 1 < 2 ^ 31" using a(2) by simp
  ultimately show ?thesis using l by (simp add: last_index_i32_def cast_i32_id)
qed

lemma fold_pidx:
  assumes "distinct v" "k \<le> length v"
  shows "(\<forall>j. a \<le> j \<and> j < k \<longrightarrow>
            fold (\<lambda>i g. g(v ! i := (g (v ! i))\<lparr>parent_index := F i (parent_index (g (v ! i)))\<rparr>)) [a..<k] h (v ! j) =
            (h (v ! j))\<lparr>parent_index := F j (parent_index (h (v ! j)))\<rparr>) \<and>
         (\<forall>x. (\<forall>j. a \<le> j \<and> j < k \<longrightarrow> v ! j \<noteq> x) \<longrightarrow>
            fold (\<lambda>i g. g(v ! i := (g (v ! i))\<lparr>parent_index := F i (parent_index (g (v ! i)))\<rparr>)) [a..<k] h x = h x)"
  using assms(2)
proof (induction k)
  case 0
  then show ?case by simp
next
  case (Suc k)
  let ?G = "\<lambda>i g. g(v ! i := (g (v ! i))\<lparr>parent_index := F i (parent_index (g (v ! i)))\<rparr>)"
  show ?case
  proof (cases "a \<le> k")
    case False
    then have "[a..<Suc k] = []" by simp
    then show ?thesis using False by auto
  next
    case True
    then have up: "[a..<Suc k] = [a..<k] @ [k]" by simp
    let ?r = "fold ?G [a..<k] h"
    have kle: "k \<le> length v" using Suc.prems by simp
    note ih = Suc.IH[OF kle]
    have ih1: "?r (v ! j) = (h (v ! j))\<lparr>parent_index := F j (parent_index (h (v ! j)))\<rparr>"
      if "a \<le> j" "j < k" for j
      using ih[THEN conjunct1, rule_format, of j] that by blast
    have ih2: "?r x = h x" if "\<forall>j. a \<le> j \<and> j < k \<longrightarrow> v ! j \<noteq> x" for x
      using ih[THEN conjunct2, rule_format, of x] that by blast
    have kl: "k < length v" using Suc.prems by simp
    have ne: "v ! j \<noteq> v ! k" if "j < k" for j
      using that kl assms(1) by (simp add: nth_eq_iff_index_eq)
    have rk: "?r (v ! k) = h (v ! k)" using ih2[of "v ! k"] ne by blast
    have r: "fold ?G [a..<Suc k] h = ?r(v ! k := (h (v ! k))\<lparr>parent_index := F k (parent_index (h (v ! k)))\<rparr>)"
      unfolding up by (simp add: rk)
    show ?thesis unfolding r
    proof (intro conjI allI impI)
      fix j assume j: "a \<le> j \<and> j < Suc k"
      show "(?r(v ! k := (h (v ! k))\<lparr>parent_index := F k (parent_index (h (v ! k)))\<rparr>)) (v ! j) =
            (h (v ! j))\<lparr>parent_index := F j (parent_index (h (v ! j)))\<rparr>"
      proof (cases "j = k")
        case True
        then show ?thesis by simp
      next
        case False
        then have jk: "j < k" using j by simp
        then show ?thesis using ne[OF jk] ih1[of j] j by simp
      qed
    next
      fix x assume x: "\<forall>j. a \<le> j \<and> j < Suc k \<longrightarrow> v ! j \<noteq> x"
      then have "v ! k \<noteq> x" using True by simp
      moreover have "?r x = h x" using ih2[of x] x by simp
      ultimately show "(?r(v ! k := (h (v ! k))\<lparr>parent_index := F k (parent_index (h (v ! k)))\<rparr>)) x = h x"
        by simp
    qed
  qed
qed

lemma renumber_from_spec:
  assumes "distinct v" "length v \<le> 2 ^ 31"
  shows "(\<forall>j. a \<le> j \<and> j < length v \<longrightarrow>
            renumber_from a v h (v ! j) = (h (v ! j))\<lparr>parent_index := int j\<rparr>) \<and>
         (\<forall>x. x \<notin> set (drop a v) \<longrightarrow> renumber_from a v h x = h x)"
proof -
  note f = fold_pidx[OF assms(1) order_refl, of a "\<lambda>i _. cast_i32 (int i)" h]
  have A: "renumber_from a v h (v ! j) = (h (v ! j))\<lparr>parent_index := int j\<rparr>"
    if "a \<le> j \<and> j < length v" for j
  proof -
    have "cast_i32 (int j) = int j" using that assms(2) by (intro cast_i32_id) simp_all
    then show ?thesis using f that by (simp add: renumber_from_def)
  qed
  have B: "renumber_from a v h x = h x" if "x \<notin> set (drop a v)" for x
  proof -
    have "\<forall>j. a \<le> j \<and> j < length v \<longrightarrow> v ! j \<noteq> x"
    proof (intro allI impI)
      fix j assume j: "a \<le> j \<and> j < length v"
      then have "v ! j = drop a v ! (j - a)" by simp
      moreover have "j - a < length (drop a v)" using j by (simp add: diff_less_mono)
      ultimately have "v ! j \<in> set (drop a v)" by (metis nth_mem)
      with that show "v ! j \<noteq> x" by blast
    qed
    then show ?thesis using f by (simp add: renumber_from_def)
  qed
  show ?thesis using A B by blast
qed

lemma decrement_from_spec:
  assumes "distinct v" "length v < 2 ^ 31" "0 \<le> a"
  shows "(\<forall>j. nat a \<le> j \<and> j < length v \<longrightarrow>
            decrement_from a v h (v ! j) = (h (v ! j))\<lparr>parent_index := parent_index (h (v ! j)) - 1\<rparr>) \<and>
         (\<forall>x. x \<notin> set (drop (nat a) v) \<longrightarrow> decrement_from a v h x = h x)"
proof -
  have c: "nat (cast_i32 (int (length v))) = length v"
    using assms(2) by (simp add: cast_i32_id)
  note f = fold_pidx[OF assms(1) order_refl, of "nat a" "\<lambda>_ old. old - 1" h]
  have A: "decrement_from a v h (v ! j) = (h (v ! j))\<lparr>parent_index := parent_index (h (v ! j)) - 1\<rparr>"
    if "nat a \<le> j \<and> j < length v" for j
    using f that by (simp add: decrement_from_def c)
  have B: "decrement_from a v h x = h x" if "x \<notin> set (drop (nat a) v)" for x
  proof -
    have "\<forall>j. nat a \<le> j \<and> j < length v \<longrightarrow> v ! j \<noteq> x"
    proof (intro allI impI)
      fix j assume j: "nat a \<le> j \<and> j < length v"
      then have "v ! j = drop (nat a) v ! (j - nat a)" by simp
      moreover have "j - nat a < length (drop (nat a) v)" using j by (simp add: diff_less_mono)
      ultimately have "v ! j \<in> set (drop (nat a) v)" by (metis nth_mem)
      with that show "v ! j \<noteq> x" by blast
    qed
    then show ?thesis using f by (simp add: decrement_from_def c)
  qed
  show ?thesis using A B by blast
qed

lemma nth_insert:
  "i \<le> length cs \<Longrightarrow>
   (take i cs @ n # drop i cs) ! j = (if j < i then cs ! j else if j = i then n else cs ! (j - 1))"
proof -
  assume il: "i \<le> length cs"
  have "j - i = Suc x \<Longrightarrow> i + x = j - 1" for x by arith
  then show ?thesis using il
    by (auto simp: nth_append min_def nth_Cons split: nat.splits)
qed

lemma nth_erase:
  "i < length cs \<Longrightarrow> j < length cs - 1 \<Longrightarrow>
   (take i cs @ drop (Suc i) cs) ! j = (if j < i then cs ! j else cs ! Suc j)"
  by (auto simp: nth_append min_def)

lemma distinct_of_index:
  assumes "\<forall>i<length v. parent_index (h (v ! i)) = int i"
  shows "distinct v"
  unfolding distinct_conv_nth
proof (intro allI impI)
  fix i j assume "i < length v" "j < length v" "i \<noteq> j"
  with assms have "parent_index (h (v ! i)) = int i" "parent_index (h (v ! j)) = int j" by simp_all
  with \<open>i \<noteq> j\<close> show "v ! i \<noteq> v ! j" by auto
qed

lemma in_drop_nth: "x \<in> set (drop i v) \<Longrightarrow> \<exists>k. i \<le> k \<and> k < length v \<and> v ! k = x"
proof -
  assume "x \<in> set (drop i v)"
  then obtain k where k: "k < length (drop i v)" "drop i v ! k = x" by (auto simp: in_set_conv_nth)
  then have "i + k < length v" "v ! (i + k) = x" by simp_all
  then show ?thesis by (intro exI[of _ "i + k"]) simp
qed

lemma attach_child:
  assumes pi: "parent_index_ok h rts S" and po: "parent_ok h rts S"
    and pS: "p \<in> S" and pn: "parent (h n) = None" and nr: "n \<notin> set rts"
    and il: "i \<le> length (children (h p))"
    and G1: "\<And>a. children (g a) = (if a = p then take i (children (h p)) @ n # drop i (children (h p)) else children (h a))"
    and G2: "\<And>a. parent (g a) = (if a = n then Some p else parent (h a))"
    and G3a: "parent_index (g n) = int i"
    and G3b: "\<And>j. i < j \<Longrightarrow> j \<le> length (children (h p)) \<Longrightarrow> parent_index (g (children (h p) ! (j - 1))) = int j"
    and G3c: "\<And>a. a \<noteq> n \<Longrightarrow> a \<notin> set (drop i (children (h p))) \<Longrightarrow> parent_index (g a) = parent_index (h a)"
  shows "parent_index_ok g rts S \<and> parent_ok g rts S"
proof -
  let ?cs = "children (h p)"
  have ri: "\<And>k. k < length rts \<Longrightarrow> parent_index (h (rts ! k)) = int k"
    and ci: "\<And>q k. q \<in> S \<Longrightarrow> k < length (children (h q)) \<Longrightarrow> parent_index (h (children (h q) ! k)) = int k"
    using pi by (simp_all add: parent_index_ok_def)
  have rp: "\<And>r. r \<in> set rts \<Longrightarrow> parent (h r) = None"
    and cp: "\<And>q c. q \<in> S \<Longrightarrow> c \<in> set (children (h q)) \<Longrightarrow> parent (h c) = Some q"
    using po by (simp_all add: parent_ok_def)
  have dcs: "distinct ?cs" using ci[OF pS] by (intro distinct_of_index[of _ h]) simp
  have ncs: "n \<notin> set ?cs" using cp[OF pS, of n] pn by auto
  have root_same: "parent_index (g r) = parent_index (h r) \<and> parent (g r) = None" if "r \<in> set rts" for r
  proof -
    have "r \<noteq> n" using that nr by auto
    moreover have "r \<notin> set ?cs" using cp[OF pS, of r] rp[OF that] by auto
    then have "r \<notin> set (drop i ?cs)" using in_set_dropD by fast
    ultimately show ?thesis using G3c[of r] G2[of r] rp[OF that] by simp
  qed
  have other: "parent_index (g c) = parent_index (h c) \<and> parent (g c) = Some q"
    if q: "q \<in> S" "q \<noteq> p" and c: "c \<in> set (children (h q))" for q c
  proof -
    have pc: "parent (h c) = Some q" by (rule cp[OF q(1) c])
    then have "c \<noteq> n" using pn by auto
    moreover have "c \<notin> set ?cs" using cp[OF pS, of c] pc q(2) by auto
    then have "c \<notin> set (drop i ?cs)" using in_set_dropD by fast
    ultimately show ?thesis using G3c[of c] G2[of c] pc by simp
  qed
  have A: "parent_index_ok g rts S"
    unfolding parent_index_ok_def
  proof (intro conjI allI impI ballI)
    fix k assume k: "k < length rts"
    then have "rts ! k \<in> set rts" by simp
    from root_same[OF this] ri[OF k] show "parent_index (g (rts ! k)) = int k" by simp
  next
    fix q k assume q: "q \<in> S" and k: "k < length (children (g q))"
    show "parent_index (g (children (g q) ! k)) = int k"
    proof (cases "q = p")
      case False
      then have ch: "children (g q) = children (h q)" using G1[of q] by simp
      then have "children (h q) ! k \<in> set (children (h q))" using k by simp
      from other[OF q False this] ci[OF q, of k] k ch show ?thesis by simp
    next
      case True
      have ch: "children (g q) = take i ?cs @ n # drop i ?cs" using G1[of p] True by simp
      have kl: "k \<le> length ?cs" using k ch il by simp
      show ?thesis
      proof (cases "k < i")
        case T2: True
        then have kk: "k < length ?cs" using il by simp
        have e: "children (g q) ! k = ?cs ! k" unfolding ch using nth_insert[OF il, of n k] T2 by simp
        have "?cs ! k \<notin> set (drop i ?cs)"
        proof
          assume "?cs ! k \<in> set (drop i ?cs)"
          from in_drop_nth[OF this] obtain k' where k': "i \<le> k'" "k' < length ?cs" "?cs ! k' = ?cs ! k" by blast
          then have "k' = k" using dcs kk by (simp add: nth_eq_iff_index_eq)
          with k' T2 show False by simp
        qed
        moreover have "?cs ! k \<noteq> n" using ncs kk by (metis nth_mem)
        ultimately show ?thesis using G3c[of "?cs ! k"] ci[OF pS kk] e by simp
      next
        case F2: False
        show ?thesis
        proof (cases "k = i")
          case T3: True
          have "children (g q) ! k = n" unfolding ch using nth_insert[OF il, of n k] T3 by simp
          then show ?thesis using G3a T3 by simp
        next
          case F3: False
          then have ik: "i < k" using F2 by simp
          have "children (g q) ! k = ?cs ! (k - 1)" unfolding ch using nth_insert[OF il, of n k] F2 F3 by simp
          then show ?thesis using G3b[OF ik kl] by simp
        qed
      qed
    qed
  qed
  have B: "parent_ok g rts S"
    unfolding parent_ok_def
  proof (intro conjI ballI)
    fix r assume "r \<in> set rts"
    from root_same[OF this] show "parent (g r) = None" by simp
  next
    fix q c assume q: "q \<in> S" and c: "c \<in> set (children (g q))"
    show "parent (g c) = Some q"
    proof (cases "q = p")
      case False
      then have "c \<in> set (children (h q))" using c G1[of q] by simp
      from other[OF q False this] show ?thesis by simp
    next
      case True
      have "c \<in> set (take i ?cs @ n # drop i ?cs)" using c G1[of p] True by simp
      then have "c = n \<or> c \<in> set ?cs"
        using in_set_takeD[of c i ?cs] in_set_dropD[of c i ?cs] by auto
      then show ?thesis
      proof
        assume "c = n"
        then show ?thesis using G2[of n] True by simp
      next
        assume cc: "c \<in> set ?cs"
        then have "c \<noteq> n" using ncs by auto
        then show ?thesis using G2[of c] cp[OF pS cc] True by simp
      qed
    qed
  qed
  show ?thesis using A B by simp
qed


lemma attach_root:
  assumes pi: "parent_index_ok h rts S" and po: "parent_ok h rts S"
    and nr: "n \<notin> set rts" and nc: "\<And>q. q \<in> S \<Longrightarrow> n \<notin> set (children (h q))"
    and il: "i \<le> length rts"
    and G1: "\<And>a. children (g a) = children (h a)"
    and G2: "\<And>a. parent (g a) = (if a = n then None else parent (h a))"
    and G3a: "parent_index (g n) = int i"
    and G3b: "\<And>j. i < j \<Longrightarrow> j \<le> length rts \<Longrightarrow> parent_index (g (rts ! (j - 1))) = int j"
    and G3c: "\<And>a. a \<noteq> n \<Longrightarrow> a \<notin> set (drop i rts) \<Longrightarrow> parent_index (g a) = parent_index (h a)"
  shows "parent_index_ok g (take i rts @ n # drop i rts) S \<and>
         parent_ok g (take i rts @ n # drop i rts) S"
proof -
  let ?rs = "take i rts @ n # drop i rts"
  have ri: "\<And>k. k < length rts \<Longrightarrow> parent_index (h (rts ! k)) = int k"
    and ci: "\<And>q k. q \<in> S \<Longrightarrow> k < length (children (h q)) \<Longrightarrow> parent_index (h (children (h q) ! k)) = int k"
    using pi by (simp_all add: parent_index_ok_def)
  have rp: "\<And>r. r \<in> set rts \<Longrightarrow> parent (h r) = None"
    and cp: "\<And>q c. q \<in> S \<Longrightarrow> c \<in> set (children (h q)) \<Longrightarrow> parent (h c) = Some q"
    using po by (simp_all add: parent_ok_def)
  have drs: "distinct rts" using ri by (intro distinct_of_index[of _ h]) simp
  have child: "parent_index (g c) = parent_index (h c) \<and> parent (g c) = Some q"
    if q: "q \<in> S" and c: "c \<in> set (children (h q))" for q c
  proof -
    have pc: "parent (h c) = Some q" by (rule cp[OF q c])
    have "c \<noteq> n" using nc[OF q] c by auto
    moreover have "c \<notin> set rts" using rp[of c] pc by auto
    then have "c \<notin> set (drop i rts)" using in_set_dropD by fast
    ultimately show ?thesis using G3c[of c] G2[of c] pc by simp
  qed
  have A: "parent_index_ok g ?rs S"
    unfolding parent_index_ok_def
  proof (intro conjI allI impI ballI)
    fix q k assume q: "q \<in> S" and k: "k < length (children (g q))"
    have ch: "children (g q) = children (h q)" by (rule G1)
    then have "children (h q) ! k \<in> set (children (h q))" using k by simp
    from child[OF q this] ci[OF q, of k] k ch show "parent_index (g (children (g q) ! k)) = int k"
      by simp
  next
    fix k assume k: "k < length ?rs"
    have kl: "k \<le> length rts" using k il by simp
    show "parent_index (g (?rs ! k)) = int k"
    proof (cases "k < i")
      case T2: True
      then have kk: "k < length rts" using il by simp
      have e: "?rs ! k = rts ! k" using nth_insert[OF il, of n k] T2 by simp
      have "rts ! k \<notin> set (drop i rts)"
      proof
        assume "rts ! k \<in> set (drop i rts)"
        from in_drop_nth[OF this] obtain k' where k': "i \<le> k'" "k' < length rts" "rts ! k' = rts ! k" by blast
        then have "k' = k" using drs kk by (simp add: nth_eq_iff_index_eq)
        with k' T2 show False by simp
      qed
      moreover have "rts ! k \<noteq> n" using nr kk by (metis nth_mem)
      ultimately show ?thesis using G3c[of "rts ! k"] ri[OF kk] e by simp
    next
      case F2: False
      show ?thesis
      proof (cases "k = i")
        case T3: True
        have "?rs ! k = n" using nth_insert[OF il, of n k] T3 by simp
        then show ?thesis using G3a T3 by simp
      next
        case F3: False
        then have ik: "i < k" using F2 by simp
        have "?rs ! k = rts ! (k - 1)" using nth_insert[OF il, of n k] F2 F3 by simp
        then show ?thesis using G3b[OF ik kl] by simp
      qed
    qed
  qed
  have B: "parent_ok g ?rs S"
    unfolding parent_ok_def
  proof (intro conjI ballI)
    fix r assume "r \<in> set ?rs"
    then have "r = n \<or> r \<in> set rts"
      using in_set_takeD[of r i rts] in_set_dropD[of r i rts] by auto
    then show "parent (g r) = None" using G2[of r] rp[of r] by auto
  next
    fix q c assume q: "q \<in> S" and c: "c \<in> set (children (g q))"
    then have "c \<in> set (children (h q))" using G1[of q] by simp
    from child[OF q this] show "parent (g c) = Some q" by simp
  qed
  show ?thesis using A B by simp
qed

lemma detach_child:
  assumes pi: "parent_index_ok h rts S" and po: "parent_ok h rts S"
    and pS: "p \<in> S" and il: "i < length (children (h p))" and ni: "children (h p) ! i = n"
    and G1: "\<And>a. children (g a) = (if a = p then take i (children (h p)) @ drop (Suc i) (children (h p)) else children (h a))"
    and G2: "\<And>a. parent (g a) = (if a = n then None else parent (h a))"
    and G3b: "\<And>j. i \<le> j \<Longrightarrow> j < length (children (h p)) - 1 \<Longrightarrow> parent_index (g (children (h p) ! Suc j)) = int j"
    and G3c: "\<And>a. a \<noteq> n \<Longrightarrow> a \<notin> set (drop (Suc i) (children (h p))) \<Longrightarrow> parent_index (g a) = parent_index (h a)"
  shows "parent_index_ok g rts S \<and> parent_ok g rts S"
proof -
  let ?cs = "children (h p)"
  let ?cs' = "take i ?cs @ drop (Suc i) ?cs"
  have ri: "\<And>k. k < length rts \<Longrightarrow> parent_index (h (rts ! k)) = int k"
    and ci: "\<And>q k. q \<in> S \<Longrightarrow> k < length (children (h q)) \<Longrightarrow> parent_index (h (children (h q) ! k)) = int k"
    using pi by (simp_all add: parent_index_ok_def)
  have rp: "\<And>r. r \<in> set rts \<Longrightarrow> parent (h r) = None"
    and cp: "\<And>q c. q \<in> S \<Longrightarrow> c \<in> set (children (h q)) \<Longrightarrow> parent (h c) = Some q"
    using po by (simp_all add: parent_ok_def)
  have dcs: "distinct ?cs" using ci[OF pS] by (intro distinct_of_index[of _ h]) simp
  have nin: "n \<in> set ?cs" using il ni by (metis nth_mem)
  have pn: "parent (h n) = Some p" by (rule cp[OF pS nin])
  have len': "length ?cs' = length ?cs - 1" using il by simp
  have root_same: "parent_index (g r) = parent_index (h r) \<and> parent (g r) = None" if "r \<in> set rts" for r
  proof -
    have "r \<noteq> n" using pn rp[OF that] by auto
    moreover have "r \<notin> set ?cs" using cp[OF pS, of r] rp[OF that] by auto
    then have "r \<notin> set (drop (Suc i) ?cs)" using in_set_dropD by fast
    ultimately show ?thesis using G3c[of r] G2[of r] rp[OF that] by simp
  qed
  have other: "parent_index (g c) = parent_index (h c) \<and> parent (g c) = Some q"
    if q: "q \<in> S" "q \<noteq> p" and c: "c \<in> set (children (h q))" for q c
  proof -
    have pc: "parent (h c) = Some q" by (rule cp[OF q(1) c])
    then have "c \<noteq> n" using pn q(2) by auto
    moreover have "c \<notin> set ?cs" using cp[OF pS, of c] pc q(2) by auto
    then have "c \<notin> set (drop (Suc i) ?cs)" using in_set_dropD by fast
    ultimately show ?thesis using G3c[of c] G2[of c] pc by simp
  qed
  have A: "parent_index_ok g rts S"
    unfolding parent_index_ok_def
  proof (intro conjI allI impI ballI)
    fix k assume k: "k < length rts"
    then have "rts ! k \<in> set rts" by simp
    from root_same[OF this] ri[OF k] show "parent_index (g (rts ! k)) = int k" by simp
  next
    fix q k assume q: "q \<in> S" and k: "k < length (children (g q))"
    show "parent_index (g (children (g q) ! k)) = int k"
    proof (cases "q = p")
      case False
      then have ch: "children (g q) = children (h q)" using G1[of q] by simp
      then have "children (h q) ! k \<in> set (children (h q))" using k by simp
      from other[OF q False this] ci[OF q, of k] k ch show ?thesis by simp
    next
      case True
      have ch: "children (g q) = ?cs'" using G1[of p] True by simp
      have kl: "k < length ?cs - 1" using k ch len' by simp
      show ?thesis
      proof (cases "k < i")
        case T2: True
        then have kk: "k < length ?cs" using il by simp
        have e: "children (g q) ! k = ?cs ! k" unfolding ch using nth_erase[OF il kl] T2 by simp
        have "?cs ! k \<notin> set (drop (Suc i) ?cs)"
        proof
          assume "?cs ! k \<in> set (drop (Suc i) ?cs)"
          from in_drop_nth[OF this] obtain k' where k': "Suc i \<le> k'" "k' < length ?cs" "?cs ! k' = ?cs ! k" by blast
          then have "k' = k" using dcs kk by (simp add: nth_eq_iff_index_eq)
          with k' T2 show False by simp
        qed
        moreover have "?cs ! k \<noteq> n"
        proof
          assume "?cs ! k = n"
          then have "?cs ! k = ?cs ! i" using ni by simp
          then have "k = i" using dcs kk il by (simp add: nth_eq_iff_index_eq)
          with T2 show False by simp
        qed
        ultimately show ?thesis using G3c[of "?cs ! k"] ci[OF pS kk] e by simp
      next
        case F2: False
        then have ik: "i \<le> k" by simp
        have "children (g q) ! k = ?cs ! Suc k" unfolding ch using nth_erase[OF il kl] F2 by simp
        then show ?thesis using G3b[OF ik kl] by simp
      qed
    qed
  qed
  have B: "parent_ok g rts S"
    unfolding parent_ok_def
  proof (intro conjI ballI)
    fix r assume "r \<in> set rts"
    from root_same[OF this] show "parent (g r) = None" by simp
  next
    fix q c assume q: "q \<in> S" and c: "c \<in> set (children (g q))"
    show "parent (g c) = Some q"
    proof (cases "q = p")
      case False
      then have "c \<in> set (children (h q))" using c G1[of q] by simp
      from other[OF q False this] show ?thesis by simp
    next
      case True
      have c': "c \<in> set ?cs'" using c G1[of p] True by simp
      then have cc: "c \<in> set ?cs"
        using in_set_takeD[of c i ?cs] in_set_dropD[of c "Suc i" ?cs] by auto
      have "distinct (take i ?cs @ ?cs ! i # drop (Suc i) ?cs)"
        using dcs id_take_nth_drop[OF il] by simp
      then have "?cs ! i \<notin> set ?cs'" by auto
      then have "c \<noteq> n" using c' ni by auto
      then show ?thesis using G2[of c] cp[OF pS cc] True by simp
    qed
  qed
  show ?thesis using A B by simp
qed

lemma detach_root:
  assumes pi: "parent_index_ok h rts S" and po: "parent_ok h rts S"
    and il: "i < length rts"
    and G1: "\<And>a. children (g a) = children (h a)"
    and G2: "\<And>a. parent (g a) = parent (h a)"
    and G3b: "\<And>j. i \<le> j \<Longrightarrow> j < length rts - 1 \<Longrightarrow> parent_index (g (rts ! Suc j)) = int j"
    and G3c: "\<And>a. a \<notin> set (drop (Suc i) rts) \<Longrightarrow> parent_index (g a) = parent_index (h a)"
  shows "parent_index_ok g (take i rts @ drop (Suc i) rts) S \<and>
         parent_ok g (take i rts @ drop (Suc i) rts) S"
proof -
  let ?rs = "take i rts @ drop (Suc i) rts"
  have ri: "\<And>k. k < length rts \<Longrightarrow> parent_index (h (rts ! k)) = int k"
    and ci: "\<And>q k. q \<in> S \<Longrightarrow> k < length (children (h q)) \<Longrightarrow> parent_index (h (children (h q) ! k)) = int k"
    using pi by (simp_all add: parent_index_ok_def)
  have rp: "\<And>r. r \<in> set rts \<Longrightarrow> parent (h r) = None"
    and cp: "\<And>q c. q \<in> S \<Longrightarrow> c \<in> set (children (h q)) \<Longrightarrow> parent (h c) = Some q"
    using po by (simp_all add: parent_ok_def)
  have drs: "distinct rts" using ri by (intro distinct_of_index[of _ h]) simp
  have len': "length ?rs = length rts - 1" using il by simp
  have child: "parent_index (g c) = parent_index (h c) \<and> parent (g c) = Some q"
    if q: "q \<in> S" and c: "c \<in> set (children (h q))" for q c
  proof -
    have pc: "parent (h c) = Some q" by (rule cp[OF q c])
    have "c \<notin> set rts" using rp[of c] pc by auto
    then have "c \<notin> set (drop (Suc i) rts)" using in_set_dropD by fast
    then show ?thesis using G3c[of c] G2[of c] pc by simp
  qed
  have A: "parent_index_ok g ?rs S"
    unfolding parent_index_ok_def
  proof (intro conjI allI impI ballI)
    fix q k assume q: "q \<in> S" and k: "k < length (children (g q))"
    have ch: "children (g q) = children (h q)" by (rule G1)
    then have "children (h q) ! k \<in> set (children (h q))" using k by simp
    from child[OF q this] ci[OF q, of k] k ch show "parent_index (g (children (g q) ! k)) = int k"
      by simp
  next
    fix k assume k: "k < length ?rs"
    have kl: "k < length rts - 1" using k len' by simp
    show "parent_index (g (?rs ! k)) = int k"
    proof (cases "k < i")
      case T2: True
      then have kk: "k < length rts" using il by simp
      have e: "?rs ! k = rts ! k" using nth_erase[OF il kl] T2 by simp
      have "rts ! k \<notin> set (drop (Suc i) rts)"
      proof
        assume "rts ! k \<in> set (drop (Suc i) rts)"
        from in_drop_nth[OF this] obtain k' where k': "Suc i \<le> k'" "k' < length rts" "rts ! k' = rts ! k" by blast
        then have "k' = k" using drs kk by (simp add: nth_eq_iff_index_eq)
        with k' T2 show False by simp
      qed
      then show ?thesis using G3c[of "rts ! k"] ri[OF kk] e by simp
    next
      case F2: False
      then have ik: "i \<le> k" by simp
      have "?rs ! k = rts ! Suc k" using nth_erase[OF il kl] F2 by simp
      then show ?thesis using G3b[OF ik kl] by simp
    qed
  qed
  have B: "parent_ok g ?rs S"
    unfolding parent_ok_def
  proof (intro conjI ballI)
    fix r assume "r \<in> set ?rs"
    then have "r \<in> set rts"
      using in_set_takeD[of r i rts] in_set_dropD[of r "Suc i" rts] by auto
    then show "parent (g r) = None" using G2[of r] rp[of r] by auto
  next
    fix q c assume q: "q \<in> S" and c: "c \<in> set (children (g q))"
    then have "c \<in> set (children (h q))" using G1[of q] by simp
    from child[OF q this] show "parent (g c) = Some q" by simp
  qed
  show ?thesis using A B by simp
qed

lemma fold_max_le_iff: "fold max xs (b::nat) \<le> k \<longleftrightarrow> b \<le> k \<and> (\<forall>x\<in>set xs. x \<le> k)"
  by (induction xs arbitrary: b) auto

lemma height_forest_le_iff: "height_forest ts \<le> k \<longleftrightarrow> (\<forall>t\<in>set ts. height t \<le> k)"
  by (simp add: height_forest_def fold_max_le_iff)

lemma root_of_ins_child: "root_of (ins_child p i tn t) = root_of t"
  by (cases t) simp

lemma root_of_del_tree: "root_of (del_tree n t) = root_of t"
  by (cases t) simp

lemma shaped_ins_child:
  assumes tn: "shaped g tn"
    and same: "\<And>q. q \<noteq> p \<Longrightarrow> children (g q) = children (h q)"
    and new: "children (g p) = take i (children (h p)) @ root_of tn # drop i (children (h p))"
  shows "shaped h t \<Longrightarrow> shaped g (ins_child p i tn t)"
proof (induction t)
  case (RNode m cs)
  have ch: "children (h m) = map root_of cs" and sub: "\<And>c. c \<in> set cs \<Longrightarrow> shaped h c"
    using RNode.prems by (simp_all add: list_all_iff)
  have IH: "\<And>c. c \<in> set cs \<Longrightarrow> shaped g (ins_child p i tn c)"
    using RNode.IH sub by simp
  have roots: "map root_of (map (ins_child p i tn) cs) = map root_of cs"
    by (simp add: root_of_ins_child)
  show ?case
  proof (cases "m = p")
    case False
    then show ?thesis using same[of m] ch IH by (simp add: list_all_iff root_of_ins_child)
  next
    case True
    have "map root_of (take i (map (ins_child p i tn) cs) @ tn # drop i (map (ins_child p i tn) cs))
          = take i (map root_of cs) @ root_of tn # drop i (map root_of cs)"
      using roots by (simp add: take_map drop_map root_of_ins_child)
    moreover have "list_all (shaped g) (take i (map (ins_child p i tn) cs) @ tn # drop i (map (ins_child p i tn) cs))"
      using IH tn by (auto simp: list_all_iff dest!: in_set_takeD in_set_dropD)
    ultimately show ?thesis using True new ch by simp
  qed
qed

lemma preorder_ins_child:
  "set (preorder (ins_child p i tn t)) \<subseteq> set (preorder t) \<union> set (preorder tn)"
proof (induction t)
  case (RNode m cs)
  have IH: "\<And>c. c \<in> set cs \<Longrightarrow> set (preorder (ins_child p i tn c)) \<subseteq> set (preorder c) \<union> set (preorder tn)"
    using RNode.IH by simp
  show ?case
  proof (cases "m = p")
    case False
    then show ?thesis using IH by auto
  next
    case True
    then show ?thesis using IH by (auto dest!: in_set_takeD in_set_dropD) blast+
  qed
qed

lemma height_ins_child: "height (ins_child p i tn t) \<le> height t + height tn"
proof (induction t)
  case (RNode m cs)
  have IH: "\<And>c. c \<in> set cs \<Longrightarrow> height (ins_child p i tn c) \<le> height_forest cs + height tn"
    using RNode.IH height_forest_ge[of _ cs] by (meson add_le_mono1 order_trans)
  show ?case
  proof (cases "m = p")
    case False
    then show ?thesis using IH by (simp add: height_RNode height_forest_le_iff del: height.simps)
  next
    case True
    then show ?thesis using IH
      by (auto simp: height_RNode height_forest_le_iff simp del: height.simps
            dest!: in_set_takeD in_set_dropD)
  qed
qed

lemma shaped_del_tree:
  "shaped h t \<Longrightarrow>
   (\<And>q. q \<in> set (preorder t) \<Longrightarrow> children (g q) = filter (\<lambda>c. c \<noteq> n) (children (h q))) \<Longrightarrow>
   shaped g (del_tree n t)"
proof (induction t)
  case (RNode m cs)
  have ch: "children (h m) = map root_of cs" and sub: "\<And>c. c \<in> set cs \<Longrightarrow> shaped h c"
    using RNode.prems(1) by (simp_all add: list_all_iff)
  have IH: "\<And>c. c \<in> set cs \<Longrightarrow> shaped g (del_tree n c)"
    using RNode.IH sub RNode.prems(2) by auto
  have "children (g m) = filter (\<lambda>c. c \<noteq> n) (map root_of cs)"
    using RNode.prems(2)[of m] ch by simp
  also have "\<dots> = map root_of (map (del_tree n) (filter (\<lambda>c. root_of c \<noteq> n) cs))"
    by (simp add: filter_map o_def root_of_del_tree)
  finally show ?case using IH by (simp add: list_all_iff)
qed

lemma preorder_del_tree: "set (preorder (del_tree n t)) \<subseteq> set (preorder t)"
proof (induction t)
  case (RNode m cs)
  then show ?case by auto
qed

lemma height_del_tree: "height (del_tree n t) \<le> height t"
proof (induction t)
  case (RNode m cs)
  have IH: "\<And>c. c \<in> set cs \<Longrightarrow> height (del_tree n c) \<le> height_forest cs"
    using RNode.IH height_forest_ge[of _ cs] by (meson order_trans)
  show ?case using IH by (simp add: height_RNode height_forest_le_iff del: height.simps)
qed

lemma subtree_at:
  "n \<in> set (preorder t) \<Longrightarrow> shaped h t \<Longrightarrow>
   \<exists>sub. root_of sub = n \<and> shaped h sub \<and> height sub \<le> height t \<and>
         set (preorder sub) \<subseteq> set (preorder t)"
proof (induction t)
  case (RNode m cs)
  show ?case
  proof (cases "n = m")
    case True
    show ?thesis
      by (rule exI[of _ "RNode m cs"]) (use True RNode.prems in simp)
  next
    case False
    then obtain c where c: "c \<in> set cs" "n \<in> set (preorder c)" using RNode.prems(1) by auto
    have "shaped h c" using RNode.prems(2) c(1) by (simp add: list_all_iff)
    from RNode.IH[OF c(1) c(2) this] obtain sub where
      sub: "root_of sub = n" "shaped h sub" "height sub \<le> height c" "set (preorder sub) \<subseteq> set (preorder c)"
      by blast
    have "height sub \<le> height (RNode m cs)" using sub(3) height_subtree[OF c(1), of m] by simp
    moreover have "set (preorder sub) \<subseteq> set (preorder (RNode m cs))" using sub(4) c(1) by auto
    ultimately show ?thesis using sub(1,2) by blast
  qed
qed

lemma subtree_at_forest:
  assumes "n \<in> set (preorder_forest ts)" and "shaped_forest h rts ts"
  shows "\<exists>sub. root_of sub = n \<and> shaped h sub \<and> height sub \<le> height_forest ts \<and>
         set (preorder sub) \<subseteq> set (preorder_forest ts)"
proof -
  from assms(1) obtain t where t: "t \<in> set ts" "n \<in> set (preorder t)"
    by (auto simp: preorder_forest_def)
  have "shaped h t" using assms(2) t(1) by (simp add: shaped_forest_def list_all_iff)
  from subtree_at[OF t(2) this] obtain sub where
    sub: "root_of sub = n" "shaped h sub" "height sub \<le> height t" "set (preorder sub) \<subseteq> set (preorder t)"
    by blast
  have "height sub \<le> height_forest ts" using sub(3) height_forest_ge[OF t(1)] by simp
  moreover have "set (preorder sub) \<subseteq> set (preorder_forest ts)"
    using sub(4) t(1) by (auto simp: preorder_forest_def)
  ultimately show ?thesis using sub(1,2) by blast
qed

lemma root_or_child:
  "n \<in> set (preorder t) \<Longrightarrow> shaped h t \<Longrightarrow>
   n = root_of t \<or> (\<exists>q\<in>set (preorder t). n \<in> set (children (h q)))"
proof (induction t)
  case (RNode m cs)
  show ?case
  proof (cases "n = m")
    case True then show ?thesis by simp
  next
    case False
    then obtain c where c: "c \<in> set cs" "n \<in> set (preorder c)" using RNode.prems(1) by auto
    have sc: "shaped h c" using RNode.prems(2) c(1) by (simp add: list_all_iff)
    have ch: "children (h m) = map root_of cs" using RNode.prems(2) by simp
    from RNode.IH[OF c(1) c(2) sc] show ?thesis
    proof
      assume "n = root_of c"
      then have "n \<in> set (children (h m))" using ch c(1) by auto
      then show ?thesis by auto
    next
      assume "\<exists>q\<in>set (preorder c). n \<in> set (children (h q))"
      then show ?thesis using c(1) by auto
    qed
  qed
qed

lemma root_or_child_forest:
  assumes "n \<in> set (preorder_forest ts)" and "shaped_forest h rts ts"
  shows "n \<in> set rts \<or> (\<exists>q\<in>set (preorder_forest ts). n \<in> set (children (h q)))"
proof -
  from assms(1) obtain t where t: "t \<in> set ts" "n \<in> set (preorder t)"
    by (auto simp: preorder_forest_def)
  have "shaped h t" and r: "rts = map root_of ts"
    using assms(2) t(1) by (simp_all add: shaped_forest_def list_all_iff)
  from root_or_child[OF t(2) this(1)] show ?thesis
  proof
    assume "n = root_of t"
    then show ?thesis using r t(1) by auto
  next
    assume "\<exists>q\<in>set (preorder t). n \<in> set (children (h q))"
    then show ?thesis using t(1) by (auto simp: preorder_forest_def)
  qed
qed

lemma children_in_tree:
  "shaped h t \<Longrightarrow> q \<in> set (preorder t) \<Longrightarrow> set (children (h q)) \<subseteq> set (preorder t)"
proof (induction t)
  case (RNode m cs)
  show ?case
  proof (cases "q = m")
    case True
    have "children (h m) = map root_of cs" using RNode.prems(1) by simp
    moreover have "\<And>c. c \<in> set cs \<Longrightarrow> root_of c \<in> set (preorder c)"
    proof -
      fix c :: rtree show "root_of c \<in> set (preorder c)" by (cases c) simp
    qed
    ultimately show ?thesis using True by auto
  next
    case False
    then obtain c where c: "c \<in> set cs" "q \<in> set (preorder c)" using RNode.prems(2) by auto
    have sc: "shaped h c" using RNode.prems(1) c(1) by (simp add: list_all_iff)
    from RNode.IH[OF c(1) sc c(2)] show ?thesis using c(1) by auto
  qed
qed

lemma children_in_forest:
  assumes "shaped_forest h rts ts" and "q \<in> set (preorder_forest ts)"
  shows "set (children (h q)) \<subseteq> set (preorder_forest ts)"
proof -
  from assms(2) obtain t where t: "t \<in> set ts" "q \<in> set (preorder t)"
    by (auto simp: preorder_forest_def)
  have "shaped h t" using assms(1) t(1) by (simp add: shaped_forest_def list_all_iff)
  from children_in_tree[OF this t(2)] show ?thesis using t(1) by (auto simp: preorder_forest_def)
qed

lemma roots_in_forest:
  assumes "shaped_forest h rts ts"
  shows "set rts \<subseteq> set (preorder_forest ts)"
proof -
  have "\<And>c. root_of c \<in> set (preorder c)"
  proof -
    fix c :: rtree show "root_of c \<in> set (preorder c)" by (cases c) simp
  qed
  then show ?thesis using assms by (auto simp: shaped_forest_def preorder_forest_def)
qed

lemma erase_filter:
  "distinct v \<Longrightarrow> i < length v \<Longrightarrow> take i v @ drop (Suc i) v = filter (\<lambda>c. c \<noteq> v ! i) v"
proof -
  assume d: "distinct v" and i: "i < length v"
  have v: "v = take i v @ v ! i # drop (Suc i) v" by (rule id_take_nth_drop[OF i])
  have d': "distinct (take i v @ v ! i # drop (Suc i) v)" using d v by simp
  have a: "filter (\<lambda>c. c \<noteq> v ! i) (take i v) = take i v"
    using d' by (intro filter_True) auto
  have b: "filter (\<lambda>c. c \<noteq> v ! i) (drop (Suc i) v) = drop (Suc i) v"
    using d' by (intro filter_True) auto
  have "filter (\<lambda>c. c \<noteq> v ! i) v = filter (\<lambda>c. c \<noteq> v ! i) (take i v @ v ! i # drop (Suc i) v)"
    using v by simp
  also have "\<dots> = take i v @ drop (Suc i) v" using a b by simp
  finally show ?thesis by simp
qed

lemma root_in_preorder: "root_of t \<in> set (preorder t)"
  by (cases t) simp

lemma renumber_from_fields:
  assumes "distinct v" "length v \<le> 2 ^ 31"
  shows "children (renumber_from a v h x) = children (h x) \<and>
         parent (renumber_from a v h x) = parent (h x)"
proof (cases "x \<in> set (drop a v)")
  case True
  from in_drop_nth[OF True] obtain k where k: "a \<le> k" "k < length v" "v ! k = x" by blast
  then show ?thesis using renumber_from_spec[OF assms, of a h] by auto
next
  case False
  then show ?thesis using renumber_from_spec[OF assms, of a h] by simp
qed

lemma decrement_from_fields:
  assumes "distinct v" "length v < 2 ^ 31" "0 \<le> a"
  shows "children (decrement_from a v h x) = children (h x) \<and>
         parent (decrement_from a v h x) = parent (h x)"
proof (cases "x \<in> set (drop (nat a) v)")
  case True
  from in_drop_nth[OF True] obtain k where k: "nat a \<le> k" "k < length v" "v ! k = x" by blast
  then show ?thesis using decrement_from_spec[OF assms, of h] by auto
next
  case False
  then show ?thesis using decrement_from_spec[OF assms, of h] by simp
qed

lemma parent_index_ok_union:
  "parent_index_ok h rts S1 \<Longrightarrow> parent_index_ok h [] S2 \<Longrightarrow> parent_index_ok h rts (S1 \<union> S2)"
  by (auto simp: parent_index_ok_def)

lemma parent_ok_union:
  "parent_ok h rts S1 \<Longrightarrow> parent_ok h [] S2 \<Longrightarrow> parent_ok h rts (S1 \<union> S2)"
  by (auto simp: parent_ok_def)

lemma parent_index_ok_mono:
  "parent_index_ok h rts S \<Longrightarrow> S' \<subseteq> S \<Longrightarrow> parent_index_ok h rts S'"
  by (auto simp: parent_index_ok_def)

lemma parent_ok_mono: "parent_ok h rts S \<Longrightarrow> S' \<subseteq> S \<Longrightarrow> parent_ok h rts S'"
  by (auto simp: parent_ok_def)

lemma parent_index_ok_links:
  "same_links g h' \<Longrightarrow> parent_index_ok g rts S \<Longrightarrow> parent_index_ok h' rts S"
  by (simp add: parent_index_ok_def same_links_def)

lemma parent_ok_links: "same_links g h' \<Longrightarrow> parent_ok g rts S \<Longrightarrow> parent_ok h' rts S"
  by (simp add: parent_ok_def same_links_def)

lemma sizes_ok_links: "same_links g h' \<Longrightarrow> sizes_ok g rts S \<Longrightarrow> sizes_ok h' rts S"
  by (simp add: sizes_ok_def same_links_def)

lemma shaped_links: "same_links g h' \<Longrightarrow> shaped g t \<Longrightarrow> shaped h' t"
  using shaped_cong_children[of t h' g] by (simp add: same_links_def)

lemma shaped_forest_links: "same_links g h' \<Longrightarrow> shaped_forest g rts ts \<Longrightarrow> shaped_forest h' rts ts"
  using shaped_forest_cong_children[of h' g rts ts] by (simp add: same_links_def)

lemma descendant_has_parent:
  assumes sh: "shaped g tn" and po: "parent_ok g rts S" and sub: "set (preorder tn) \<subseteq> S"
    and m: "m \<in> set (preorder_forest (subtrees tn))"
  shows "parent (g m) \<noteq> None"
proof -
  obtain n cs where tn: "tn = RNode n cs" by (cases tn)
  from m tn obtain c where c: "c \<in> set cs" "m \<in> set (preorder c)"
    by (auto simp: preorder_forest_def)
  have sc: "shaped g c" using sh tn c(1) by (simp add: list_all_iff)
  have "\<exists>q\<in>set (preorder tn). m \<in> set (children (g q))"
    using root_or_child[OF c(2) sc]
  proof
    assume "m = root_of c"
    then have "m \<in> set (children (g n))" using sh tn c(1) by auto
    then show ?thesis using tn by auto
  next
    assume "\<exists>q\<in>set (preorder c). m \<in> set (children (g q))"
    then show ?thesis using tn c(1) by auto
  qed
  then obtain q where "q \<in> S" "m \<in> set (children (g q))" using sub by auto
  then show ?thesis using po by (auto simp: parent_ok_def)
qed

lemma finish_attach:
  assumes sf: "shaped_forest g rts ts'" and hf: "height_forest ts' \<le> fuel"
    and sh: "shaped g tn" and ht: "height tn \<le> Suc fuel"
    and po: "parent_ok g rts S" and sub: "set (preorder tn) \<subseteq> S"
  shows "\<exists>h5 h6 pos. updateDepth fuel par (root_of tn) g = Some h5 \<and>
           updateBSData fuel rts h5 = Some (h6, pos) \<and> same_links g h6"
proof -
  have ok: "\<And>m. m \<in> set (preorder_forest (subtrees tn)) \<Longrightarrow>
              parent_index (g m) = 0 \<or> parent (g m) \<noteq> None"
    using descendant_has_parent[OF sh po sub] by simp
  from updateDepth_links[OF sh ht ok, of par] obtain h5 where
    a: "updateDepth fuel par (root_of tn) g = Some h5" and l1: "same_links g h5" by blast
  from updateBSData_links[OF shaped_forest_links[OF l1 sf] hf] obtain h6 pos where
    b: "updateBSData fuel rts h5 = Some (h6, pos)" and l2: "same_links h5 h6" by blast
  show ?thesis using a b same_links_trans[OF l1 l2] by blast
qed

lemma finish_detach:
  assumes sf: "shaped_forest g rts ts'" and hf: "height_forest ts' \<le> fuel"
    and sh: "shaped g tn" and ht: "height tn \<le> Suc fuel"
    and po: "parent_ok g rts S" and sub: "set (preorder tn) \<subseteq> S"
  shows "\<exists>h5 h6 pos. updateBSData fuel rts g = Some (h5, pos) \<and>
           updateDepth fuel (parent (h5 (root_of tn))) (root_of tn) h5 = Some h6 \<and> same_links g h6"
proof -
  from updateBSData_links[OF sf hf] obtain h5 pos where
    b: "updateBSData fuel rts g = Some (h5, pos)" and l1: "same_links g h5" by blast
  have ok: "\<And>m. m \<in> set (preorder_forest (subtrees tn)) \<Longrightarrow>
              parent_index (h5 m) = 0 \<or> parent (h5 m) \<noteq> None"
    using descendant_has_parent[OF shaped_links[OF l1 sh] parent_ok_links[OF l1 po] sub] by simp
  from updateDepth_links[OF shaped_links[OF l1 sh] ht ok, of "parent (h5 (root_of tn))"] obtain h6 where
    a: "updateDepth fuel (parent (h5 (root_of tn))) (root_of tn) h5 = Some h6" and l2: "same_links h5 h6" by blast
  show ?thesis using a b same_links_trans[OF l1 l2] by blast
qed

lemma tree_inv_links: "same_links g h' \<Longrightarrow> tree_inv g t ts \<Longrightarrow> tree_inv h' t ts"
  unfolding tree_inv_def
  using shaped_forest_links parent_index_ok_links parent_ok_links sizes_ok_links by blast

lemma drop_Suc_insert: "i \<le> length cs \<Longrightarrow> drop (Suc i) (take i cs @ n # drop i cs) = drop i cs"
  by (simp add: min_def)

lemma distinct_insert:
  "distinct cs \<Longrightarrow> n \<notin> set cs \<Longrightarrow> distinct (take i cs @ n # drop i cs)"
proof -
  assume d: "distinct cs" and n: "n \<notin> set cs"
  have "distinct (take i cs @ drop i cs)" using d by simp
  then have "distinct (take i cs) \<and> distinct (drop i cs) \<and> set (take i cs) \<inter> set (drop i cs) = {}"
    by (simp only: distinct_append)
  then show ?thesis using n by (auto dest: in_set_takeD in_set_dropD)
qed

lemma insert_child:
  assumes inv: "tree_inv h t ts" and det: "detached h ts tn"
    and pS: "p \<in> set (preorder_forest ts)"
    and il: "i \<le> length (children (h p))" and sz: "length (children (h p)) < 2 ^ 31"
    and fu: "height_forest ts + height tn \<le> fuel"
  shows "\<exists>h'. Tree_insert fuel (Some p) i (root_of tn) (h, t) = Some (root_of tn, h', t) \<and>
           tree_inv h' t (map (ins_child p i tn) ts)"
proof -
  define n where "n = root_of tn"
  define cs where "cs = children (h p)"
  define cs' where "cs' = take i cs @ n # drop i cs"
  define h3 where "h3 = (h(p := (h p)\<lparr>children := cs'\<rparr>))
     (n := ((h(p := (h p)\<lparr>children := cs'\<rparr>)) n)\<lparr>parent_index := cast_i32 (int i), parent := Some p\<rparr>)"
  define g where "g = renumber_from (Suc i) cs' h3"
  let ?S1 = "set (preorder_forest ts)" and ?S2 = "set (preorder tn)"
  let ?S = "?S1 \<union> ?S2"
  let ?ts = "map (ins_child p i tn) ts"
  have sf: "shaped_forest h (roots t) ts" and pi1: "parent_index_ok h (roots t) ?S1"
    and po1: "parent_ok h (roots t) ?S1" and sz1: "sizes_ok h (roots t) ?S1"
    using inv by (simp_all add: tree_inv_def)
  have sh: "shaped h tn" and pn: "parent (h n) = None" and pi2: "parent_index_ok h [] ?S2"
    and po2: "parent_ok h [] ?S2" and sz2: "sizes_ok h [] ?S2" and disj: "?S2 \<inter> ?S1 = {}"
    using det by (simp_all add: detached_def n_def)
  have pi: "parent_index_ok h (roots t) ?S" by (rule parent_index_ok_union[OF pi1 pi2])
  have po: "parent_ok h (roots t) ?S" by (rule parent_ok_union[OF po1 po2])
  have nS2: "n \<in> ?S2" unfolding n_def by (rule root_in_preorder)
  have nS1: "n \<notin> ?S1" using nS2 disj by auto
  have pn2: "p \<notin> ?S2" using pS disj by auto
  have np: "n \<noteq> p" using nS1 pS by auto
  have pS': "p \<in> ?S" using pS by simp
  have nr: "n \<notin> set (roots t)" using roots_in_forest[OF sf] nS1 by auto
  have il': "i \<le> length cs" using il by (simp add: cs_def)
  have dcs: "distinct cs"
    using pi1 pS unfolding cs_def by (intro distinct_of_index[of _ h]) (simp add: parent_index_ok_def)
  have ncs: "n \<notin> set cs" using children_in_forest[OF sf pS] nS1 by (auto simp: cs_def)
  have dcs': "distinct cs'" unfolding cs'_def by (rule distinct_insert[OF dcs ncs])
  have len: "length cs' = Suc (length cs)" using il' by (simp add: cs'_def)
  have len': "length cs' \<le> 2 ^ 31" using len sz by (simp add: cs_def)
  have ci: "cast_i32 (int i) = int i" using il sz by (intro cast_i32_id) simp_all
  note rn = renumber_from_spec[OF dcs' len', of "Suc i" h3]
  note rf = renumber_from_fields[OF dcs' len', of "Suc i" h3]
  have dr: "drop (Suc i) cs' = drop i cs" unfolding cs'_def by (rule drop_Suc_insert[OF il'])
  have G1: "children (g a) = (if a = p then take i (children (h p)) @ n # drop i (children (h p))
                               else children (h a))" for a
    using rf[of a] np by (simp add: g_def h3_def cs'_def cs_def)
  have G2: "parent (g a) = (if a = n then Some p else parent (h a))" for a
    using rf[of a] np by (simp add: g_def h3_def)
  have G3a: "parent_index (g n) = int i"
  proof -
    have "n \<notin> set (drop (Suc i) cs')" using dr ncs in_set_dropD by fastforce
    then have "g n = h3 n" using rn by (simp add: g_def)
    then show ?thesis using ci by (simp add: h3_def)
  qed
  have G3b: "parent_index (g (children (h p) ! (j - 1))) = int j"
    if "i < j" "j \<le> length (children (h p))" for j
  proof -
    have "cs' ! j = cs ! (j - 1)" unfolding cs'_def using nth_insert[OF il', of n j] that by simp
    moreover have "Suc i \<le> j \<and> j < length cs'" using that len by (simp add: cs_def)
    then have "g (cs' ! j) = (h3 (cs' ! j))\<lparr>parent_index := int j\<rparr>" using rn by (simp add: g_def)
    ultimately show ?thesis by (simp add: cs_def)
  qed
  have G3c: "parent_index (g a) = parent_index (h a)"
    if "a \<noteq> n" "a \<notin> set (drop i (children (h p)))" for a
  proof -
    have "a \<notin> set (drop (Suc i) cs')" using dr that(2) by (simp add: cs_def)
    then have "g a = h3 a" using rn by (simp add: g_def)
    then show ?thesis using that(1) by (simp add: h3_def)
  qed
  from attach_child[of h "roots t" ?S p n i g, OF pi po pS' pn nr il G1 G2 G3a G3b G3c]
  have pi': "parent_index_ok g (roots t) ?S" and po': "parent_ok g (roots t) ?S" by simp_all
  have "\<And>a. a \<in> set (preorder tn) \<Longrightarrow> children (g a) = children (h a)"
    using G1 pn2 by auto
  from shaped_cong_children[of tn g h, OF this] have shg: "shaped g tn" using sh by simp
  have G1o: "\<And>q. q \<noteq> p \<Longrightarrow> children (g q) = children (h q)" using G1 by simp
  have G1p: "children (g p) = take i (children (h p)) @ root_of tn # drop i (children (h p))"
    using G1[of p] by (simp add: n_def)
  have sf': "shaped_forest g (roots t) ?ts"
    using sf shaped_ins_child[OF shg G1o G1p]
    by (auto simp: shaped_forest_def list_all_iff root_of_ins_child)
  have sub: "set (preorder_forest ?ts) \<subseteq> ?S"
    using preorder_ins_child[of p i tn] by (fastforce simp: preorder_forest_def)
  have hf: "height_forest ?ts \<le> fuel"
    unfolding height_forest_le_iff
  proof
    fix c assume "c \<in> set ?ts"
    then obtain c0 where c0: "c0 \<in> set ts" "c = ins_child p i tn c0" by auto
    have "height c \<le> height c0 + height tn" unfolding c0(2) by (rule height_ins_child)
    also have "\<dots> \<le> height_forest ts + height tn" using height_forest_ge[OF c0(1)] by simp
    finally show "height c \<le> fuel" using fu by simp
  qed
  have ht: "height tn \<le> Suc fuel" using fu by simp
  have sz': "sizes_ok g (roots t) ?S"
    unfolding sizes_ok_def
  proof (intro conjI ballI)
    show "length (roots t) \<le> 2 ^ 31" using sz1 by (simp add: sizes_ok_def)
  next
    fix q assume q: "q \<in> ?S"
    show "length (children (g q)) \<le> 2 ^ 31"
    proof (cases "q = p")
      case True
      then show ?thesis using G1[of p] len' by (simp add: cs'_def cs_def)
    next
      case False
      then show ?thesis using G1[of q] q sz1 sz2 by (auto simp: sizes_ok_def)
    qed
  qed
  have inv_g: "tree_inv g t ?ts"
    unfolding tree_inv_def
    using sf' parent_index_ok_mono[OF pi' sub] parent_ok_mono[OF po' sub] sz' sub
    by (auto simp: sizes_ok_def)
  from finish_attach[OF sf' hf shg ht po', of "Some p"] obtain h5 h6 pos where
    a: "updateDepth fuel (Some p) n g = Some h5" and b: "updateBSData fuel (roots t) h5 = Some (h6, pos)"
    and l: "same_links g h6" by (auto simp: n_def)
  have ch3: "children (h3 p) = cs'" using np by (simp add: h3_def)
  have "Tree_insert fuel (Some p) i n (h, t) = Some (n, h6, t)"
    using il a b np
    by (simp add: Tree_insert_def vector_insert_def g_def h3_def cs_def cs'_def Let_def)
  then show ?thesis using tree_inv_links[OF l inv_g] by (auto simp: n_def)
qed

lemma attach_root_inv:
  assumes inv: "tree_inv h t ts" and det: "detached h ts tn"
    and il: "i \<le> length (roots t)" and sz: "length (roots t) < 2 ^ 31"
    and fu: "height_forest ts + height tn \<le> fuel"
    and G1: "\<And>a. children (g a) = children (h a)"
    and G2: "\<And>a. parent (g a) = (if a = root_of tn then None else parent (h a))"
    and G3a: "parent_index (g (root_of tn)) = int i"
    and G3b: "\<And>j. i < j \<Longrightarrow> j \<le> length (roots t) \<Longrightarrow> parent_index (g (roots t ! (j - 1))) = int j"
    and G3c: "\<And>a. a \<noteq> root_of tn \<Longrightarrow> a \<notin> set (drop i (roots t)) \<Longrightarrow>
                parent_index (g a) = parent_index (h a)"
  shows "\<exists>h5 h6 pos. updateDepth fuel par (root_of tn) g = Some h5 \<and>
           updateBSData fuel (take i (roots t) @ root_of tn # drop i (roots t)) h5 = Some (h6, pos) \<and>
           tree_inv h6 (t\<lparr>roots := take i (roots t) @ root_of tn # drop i (roots t)\<rparr>)
             (take i ts @ tn # drop i ts)"
proof -
  define n where "n = root_of tn"
  let ?S1 = "set (preorder_forest ts)" and ?S2 = "set (preorder tn)"
  let ?S = "?S1 \<union> ?S2"
  let ?ts = "take i ts @ tn # drop i ts"
  let ?rs = "take i (roots t) @ n # drop i (roots t)"
  have sf: "shaped_forest h (roots t) ts" and pi1: "parent_index_ok h (roots t) ?S1"
    and po1: "parent_ok h (roots t) ?S1" and sz1: "sizes_ok h (roots t) ?S1"
    using inv by (simp_all add: tree_inv_def)
  have sh: "shaped h tn" and pn: "parent (h n) = None" and pi2: "parent_index_ok h [] ?S2"
    and po2: "parent_ok h [] ?S2" and sz2: "sizes_ok h [] ?S2" and disj: "?S2 \<inter> ?S1 = {}"
    using det by (simp_all add: detached_def n_def)
  have pi: "parent_index_ok h (roots t) ?S" by (rule parent_index_ok_union[OF pi1 pi2])
  have po: "parent_ok h (roots t) ?S" by (rule parent_ok_union[OF po1 po2])
  have nS2: "n \<in> ?S2" unfolding n_def by (rule root_in_preorder)
  have nS1: "n \<notin> ?S1" using nS2 disj by auto
  have nr: "n \<notin> set (roots t)" using roots_in_forest[OF sf] nS1 by auto
  have nc: "n \<notin> set (children (h q))" if q: "q \<in> ?S" for q
  proof
    assume c: "n \<in> set (children (h q))"
    then have "parent (h n) = Some q" using po q by (simp add: parent_ok_def)
    then show False using pn by simp
  qed
  from attach_root[of h "roots t" ?S n i g, OF pi po nr nc il G1]
    G2 G3a G3b G3c
  have pi': "parent_index_ok g ?rs ?S" and po': "parent_ok g ?rs ?S" by (simp_all add: n_def)
  have shg: "shaped g tn" using shaped_cong_children[of tn g h] G1 sh by simp
  have rts: "roots t = map root_of ts" and all: "\<And>c. c \<in> set ts \<Longrightarrow> shaped h c"
    using sf by (simp_all add: shaped_forest_def list_all_iff)
  have allg: "\<And>c. c \<in> set ts \<Longrightarrow> shaped g c"
    using shaped_cong_children[of _ g h] G1 all by simp
  have sf': "shaped_forest g ?rs ?ts"
    unfolding shaped_forest_def list_all_iff
  proof (intro conjI ballI)
    show "?rs = map root_of ?ts" by (simp add: rts take_map drop_map n_def)
  next
    fix c assume "c \<in> set ?ts"
    then have "c = tn \<or> c \<in> set ts" using in_set_takeD[of c i ts] in_set_dropD[of c i ts] by auto
    then show "shaped g c" using shg allg by auto
  qed
  have sub: "set (preorder_forest ?ts) \<subseteq> ?S"
  proof
    fix x assume "x \<in> set (preorder_forest ?ts)"
    then obtain c where c: "c \<in> set ?ts" "x \<in> set (preorder c)" by (auto simp: preorder_forest_def)
    then have "c = tn \<or> c \<in> set ts" using in_set_takeD[of c i ts] in_set_dropD[of c i ts] by auto
    then show "x \<in> ?S" using c(2) by (auto simp: preorder_forest_def)
  qed
  have hf: "height_forest ?ts \<le> fuel"
    unfolding height_forest_le_iff
  proof
    fix c assume "c \<in> set ?ts"
    then have "c = tn \<or> c \<in> set ts" using in_set_takeD[of c i ts] in_set_dropD[of c i ts] by auto
    then show "height c \<le> fuel" using fu height_forest_ge[of c ts] by auto
  qed
  have ht: "height tn \<le> Suc fuel" using fu by simp
  have sz': "sizes_ok g ?rs ?S"
    using sz il sz1 sz2 G1 by (auto simp: sizes_ok_def)
  have inv_g: "tree_inv g (t\<lparr>roots := ?rs\<rparr>) ?ts"
    unfolding tree_inv_def
    using sf' parent_index_ok_mono[OF pi' sub] parent_ok_mono[OF po' sub] sz' sub
    by (auto simp: sizes_ok_def)
  from finish_attach[OF sf' hf shg ht po', of par] obtain h5 h6 pos where
    a: "updateDepth fuel par n g = Some h5" and b: "updateBSData fuel ?rs h5 = Some (h6, pos)"
    and l: "same_links g h6" by (auto simp: n_def)
  show ?thesis using a b tree_inv_links[OF l inv_g] unfolding n_def by blast
qed

lemma insert_root:
  assumes inv: "tree_inv h t ts" and det: "detached h ts tn"
    and il: "i \<le> length (roots t)" and sz: "length (roots t) < 2 ^ 31"
    and fu: "height_forest ts + height tn \<le> fuel"
  shows "\<exists>h'. Tree_insert fuel None i (root_of tn) (h, t) =
                Some (root_of tn, h', t\<lparr>roots := take i (roots t) @ root_of tn # drop i (roots t)\<rparr>) \<and>
           tree_inv h' (t\<lparr>roots := take i (roots t) @ root_of tn # drop i (roots t)\<rparr>)
             (take i ts @ tn # drop i ts)"
proof -
  define n where "n = root_of tn"
  define rs where "rs = take i (roots t) @ n # drop i (roots t)"
  define h3 where "h3 = h(n := (h n)\<lparr>parent := None, depth := 1, parent_index := cast_i32 (int i)\<rparr>)"
  define g where "g = renumber_from (Suc i) rs h3"
  have sf: "shaped_forest h (roots t) ts" and pi1: "parent_index_ok h (roots t) (set (preorder_forest ts))"
    using inv by (simp_all add: tree_inv_def)
  have disj: "set (preorder tn) \<inter> set (preorder_forest ts) = {}"
    using det by (simp add: detached_def)
  have nr: "n \<notin> set (roots t)"
    using roots_in_forest[OF sf] root_in_preorder[of tn] disj by (auto simp: n_def)
  have drs: "distinct (roots t)"
    using pi1 by (intro distinct_of_index[of _ h]) (simp add: parent_index_ok_def)
  have drs': "distinct rs" unfolding rs_def by (rule distinct_insert[OF drs nr])
  have len: "length rs = Suc (length (roots t))" using il by (simp add: rs_def)
  have len': "length rs \<le> 2 ^ 31" using len sz by simp
  have ci: "cast_i32 (int i) = int i" using il sz by (intro cast_i32_id) simp_all
  note rn = renumber_from_spec[OF drs' len', of "Suc i" h3]
  note rf = renumber_from_fields[OF drs' len', of "Suc i" h3]
  have dr: "drop (Suc i) rs = drop i (roots t)" unfolding rs_def by (rule drop_Suc_insert[OF il])
  have G1: "children (g a) = children (h a)" for a
    using rf[of a] by (simp add: g_def h3_def)
  have G2: "parent (g a) = (if a = root_of tn then None else parent (h a))" for a
    using rf[of a] by (simp add: g_def h3_def n_def)
  have G3a: "parent_index (g (root_of tn)) = int i"
  proof -
    have "n \<notin> set (drop (Suc i) rs)" using dr nr in_set_dropD by fastforce
    then have "g n = h3 n" using rn by (simp add: g_def)
    then show ?thesis using ci by (simp add: h3_def n_def)
  qed
  have G3b: "parent_index (g (roots t ! (j - 1))) = int j"
    if "i < j" "j \<le> length (roots t)" for j
  proof -
    have "rs ! j = roots t ! (j - 1)" unfolding rs_def using nth_insert[OF il, of n j] that by simp
    moreover have "Suc i \<le> j \<and> j < length rs" using that len by simp
    then have "g (rs ! j) = (h3 (rs ! j))\<lparr>parent_index := int j\<rparr>" using rn by (simp add: g_def)
    ultimately show ?thesis by simp
  qed
  have G3c: "parent_index (g a) = parent_index (h a)"
    if "a \<noteq> root_of tn" "a \<notin> set (drop i (roots t))" for a
  proof -
    have "a \<notin> set (drop (Suc i) rs)" using dr that(2) by simp
    then have "g a = h3 a" using rn by (simp add: g_def)
    then show ?thesis using that(1) by (simp add: h3_def n_def)
  qed
  have d1: "depth (g n) = 1"
  proof -
    have "n \<notin> set (drop (Suc i) rs)" using dr nr in_set_dropD by fastforce
    then have "g n = h3 n" using rn by (simp add: g_def)
    then show ?thesis by (simp add: h3_def)
  qed
  from attach_root_inv[OF inv det il sz fu G1 G2 G3a G3b G3c, of None] obtain h5 h6 pos where
    a: "updateDepth fuel None n g = Some h5" and b: "updateBSData fuel rs h5 = Some (h6, pos)"
    and c: "tree_inv h6 (t\<lparr>roots := rs\<rparr>) (take i ts @ tn # drop i ts)"
    by (auto simp: n_def rs_def)
  have "Tree_insert fuel None i n (h, t) = Some (n, h6, t\<lparr>roots := rs\<rparr>)"
    using il a b
    by (simp add: Tree_insert_def vector_insert_def g_def h3_def rs_def Let_def)
  then show ?thesis using c by (auto simp: n_def rs_def)
qed

lemma append_root:
  assumes inv: "tree_inv h t ts" and det: "detached h ts tn"
    and sz: "length (roots t) < 2 ^ 31"
    and fu: "height_forest ts + height tn \<le> fuel"
  shows "\<exists>h'. Tree_append fuel None (root_of tn) (h, t) =
                Some (root_of tn, h', t\<lparr>roots := roots t @ [root_of tn]\<rparr>) \<and>
           tree_inv h' (t\<lparr>roots := roots t @ [root_of tn]\<rparr>) (ts @ [tn])"
proof -
  define n where "n = root_of tn"
  define g where "g = h(n := (h n)\<lparr>parent := None, parent_index := last_index_i32 (roots t @ [n])\<rparr>)"
  have sf: "shaped_forest h (roots t) ts" using inv by (simp add: tree_inv_def)
  then have lts: "length ts = length (roots t)" by (simp add: shaped_forest_def)
  have li: "last_index_i32 (roots t @ [n]) = int (length (roots t))"
    using last_index_i32[of "roots t @ [n]"] sz by simp
  have G1: "children (g a) = children (h a)" for a by (simp add: g_def)
  have G2: "parent (g a) = (if a = root_of tn then None else parent (h a))" for a
    by (simp add: g_def n_def)
  have G3a: "parent_index (g (root_of tn)) = int (length (roots t))"
    using li by (simp add: g_def n_def)
  have G3b: "parent_index (g (roots t ! (j - 1))) = int j"
    if "length (roots t) < j" "j \<le> length (roots t)" for j using that by simp
  have G3c: "parent_index (g a) = parent_index (h a)"
    if "a \<noteq> root_of tn" "a \<notin> set (drop (length (roots t)) (roots t))" for a
    using that by (simp add: g_def n_def)
  from attach_root_inv[OF inv det order_refl sz fu G1 G2 G3a G3b G3c, of None] obtain h5 h6 pos where
    a: "updateDepth fuel None n g = Some h5" and b: "updateBSData fuel (roots t @ [n]) h5 = Some (h6, pos)"
    and c: "tree_inv h6 (t\<lparr>roots := roots t @ [n]\<rparr>) (ts @ [tn])"
    using lts by (auto simp: n_def)
  have "Tree_append fuel None n (h, t) = Some (n, h6, t\<lparr>roots := roots t @ [n]\<rparr>)"
    using a b by (simp add: Tree_append_def g_def Let_def)
  then show ?thesis using c by (auto simp: n_def)
qed

lemma append_child_insert:
  assumes "length (children (h p)) < 2 ^ 31"
  shows "Tree_append fuel (Some p) n (h, t) =
         Tree_insert fuel (Some p) (length (children (h p))) n (h, t)"
proof -
  have li: "last_index_i32 (children (h p) @ [n]) = int (length (children (h p)))"
    using last_index_i32[of "children (h p) @ [n]"] assms by simp
  have ci: "cast_i32 (int (length (children (h p)))) = int (length (children (h p)))"
    using assms by (intro cast_i32_id) simp_all
  show ?thesis
    by (simp add: Tree_append_def Tree_insert_def vector_insert_def Let_def li ci renumber_from_def)
qed

lemma drop_erase: "i < length cs \<Longrightarrow> drop i (take i cs @ drop (Suc i) cs) = drop (Suc i) cs"
  by (simp add: min_def)

lemma preorder_del_forest: "set (preorder_forest (del_forest n ts)) \<subseteq> set (preorder_forest ts)"
  using preorder_del_tree[of n] by (fastforce simp: preorder_forest_def del_forest_def)

lemma height_del_forest: "height_forest (del_forest n ts) \<le> height_forest ts"
  unfolding height_forest_le_iff
proof
  fix c assume "c \<in> set (del_forest n ts)"
  then obtain c0 where c0: "c0 \<in> set ts" "c = del_tree n c0" by (auto simp: del_forest_def)
  have "height c \<le> height c0" unfolding c0(2) by (rule height_del_tree)
  then show "height c \<le> height_forest ts" using height_forest_ge[OF c0(1)] by simp
qed

lemma not_in_del_tree: "root_of t \<noteq> n \<Longrightarrow> n \<notin> set (preorder (del_tree n t))"
proof (induction t)
  case (RNode m cs)
  then show ?case by auto
qed

lemma not_in_del_forest: "n \<notin> set (preorder_forest (del_forest n ts))"
  using not_in_del_tree[of _ n] by (auto simp: preorder_forest_def del_forest_def)

lemma detach_inv:
  assumes inv: "tree_inv h t ts" and nS: "n \<in> set (preorder_forest ts)"
    and fu: "height_forest ts \<le> fuel"
    and rs: "rs = filter (\<lambda>c. c \<noteq> n) (roots t)"
    and ch: "\<And>q. q \<in> set (preorder_forest ts) \<Longrightarrow>
               children (g q) = filter (\<lambda>c. c \<noteq> n) (children (h q))"
    and pi': "parent_index_ok g rs (set (preorder_forest ts))"
    and po': "parent_ok g rs (set (preorder_forest ts))"
  shows "\<exists>h5 h6 pos. updateBSData fuel rs g = Some (h5, pos) \<and>
           updateDepth fuel (parent (h5 n)) n h5 = Some h6 \<and>
           tree_inv h6 (t\<lparr>roots := rs\<rparr>) (del_forest n ts)"
proof -
  let ?S = "set (preorder_forest ts)"
  let ?ts = "del_forest n ts"
  have sf: "shaped_forest h (roots t) ts" and sz1: "sizes_ok h (roots t) ?S"
    using inv by (simp_all add: tree_inv_def)
  have rts: "roots t = map root_of ts" and all: "\<And>c. c \<in> set ts \<Longrightarrow> shaped h c"
    using sf by (simp_all add: shaped_forest_def list_all_iff)
  have sf': "shaped_forest g rs ?ts"
    unfolding shaped_forest_def list_all_iff
  proof (intro conjI ballI)
    show "rs = map root_of ?ts"
      by (simp add: rs rts del_forest_def filter_map o_def root_of_del_tree)
  next
    fix c assume "c \<in> set ?ts"
    then obtain c0 where c0: "c0 \<in> set ts" "c = del_tree n c0" by (auto simp: del_forest_def)
    have "\<And>q. q \<in> set (preorder c0) \<Longrightarrow> children (g q) = filter (\<lambda>c. c \<noteq> n) (children (h q))"
      using ch c0(1) by (auto simp: preorder_forest_def)
    from shaped_del_tree[OF all[OF c0(1)] this] show "shaped g c" by (simp add: c0(2))
  qed
  have sub: "set (preorder_forest ?ts) \<subseteq> ?S" by (rule preorder_del_forest)
  have hf: "height_forest ?ts \<le> fuel" using height_del_forest[of n ts] fu by simp
  from subtree_at_forest[OF nS sf] obtain sb where
    sb: "root_of sb = n" "shaped h sb" "height sb \<le> height_forest ts" "set (preorder sb) \<subseteq> ?S"
    by blast
  have "\<And>q. q \<in> set (preorder sb) \<Longrightarrow> children (g q) = filter (\<lambda>c. c \<noteq> n) (children (h q))"
    using ch sb(4) by auto
  from shaped_del_tree[OF sb(2) this] have shg: "shaped g (del_tree n sb)" .
  have rt: "root_of (del_tree n sb) = n" using sb(1) by (simp add: root_of_del_tree)
  have ht: "height (del_tree n sb) \<le> Suc fuel"
    using height_del_tree[of n sb] sb(3) fu by simp
  have sub2: "set (preorder (del_tree n sb)) \<subseteq> ?S" using preorder_del_tree[of n sb] sb(4) by auto
  have sz': "sizes_ok g rs ?S"
    unfolding sizes_ok_def
  proof (intro conjI ballI)
    have "length rs \<le> length (roots t)" by (simp add: rs)
    then show "length rs \<le> 2 ^ 31" using sz1 by (simp add: sizes_ok_def)
  next
    fix q assume q: "q \<in> ?S"
    have "length (children (g q)) \<le> length (children (h q))" using ch[OF q] by simp
    then show "length (children (g q)) \<le> 2 ^ 31" using sz1 q by (auto simp: sizes_ok_def)
  qed
  have inv_g: "tree_inv g (t\<lparr>roots := rs\<rparr>) ?ts"
    unfolding tree_inv_def
    using sf' parent_index_ok_mono[OF pi' sub] parent_ok_mono[OF po' sub] sz' sub
    by (auto simp: sizes_ok_def)
  from finish_detach[OF sf' hf shg ht po' sub2] obtain h5 h6 pos where
    b: "updateBSData fuel rs g = Some (h5, pos)"
    and a: "updateDepth fuel (parent (h5 n)) n h5 = Some h6"
    and l: "same_links g h6" by (auto simp: rt)
  show ?thesis using a b tree_inv_links[OF l inv_g] by blast
qed

lemma remove_child:
  assumes inv: "tree_inv h t ts" and nS: "n \<in> set (preorder_forest ts)"
    and pn: "parent (h n) = Some p" and fu: "height_forest ts \<le> fuel"
  shows "\<exists>h'. Tree_remove fuel (Some n) (h, t) = Some (Some n, h', t) \<and>
           tree_inv h' t (del_forest n ts)"
proof -
  let ?S = "set (preorder_forest ts)"
  define cs where "cs = children (h p)"
  have sf: "shaped_forest h (roots t) ts" and pi: "parent_index_ok h (roots t) ?S"
    and po: "parent_ok h (roots t) ?S" and sz1: "sizes_ok h (roots t) ?S"
    using inv by (simp_all add: tree_inv_def)
  have nr: "n \<notin> set (roots t)" using po pn by (auto simp: parent_ok_def)
  with root_or_child_forest[OF nS sf] obtain q where q: "q \<in> ?S" "n \<in> set (children (h q))"
    by blast
  then have "parent (h n) = Some q" using po by (simp add: parent_ok_def)
  then have qp: "q = p" using pn by simp
  have pS: "p \<in> ?S" and ncs: "n \<in> set cs" using q qp by (simp_all add: cs_def)
  from ncs obtain k where k: "k < length cs" "cs ! k = n" by (auto simp: in_set_conv_nth)
  have pin: "parent_index (h n) = int k"
    using pi pS k by (auto simp: parent_index_ok_def cs_def)
  define cs' where "cs' = take k cs @ drop (Suc k) cs"
  define h1 where "h1 = h(p := (h p)\<lparr>children := cs'\<rparr>)"
  define h2 where "h2 = decrement_from (int k) cs' h1"
  define g where "g = h2(n := (h2 n)\<lparr>parent := None, parent_index := - 1\<rparr>)"
  have dcs: "distinct cs"
    using pi pS unfolding cs_def by (intro distinct_of_index[of _ h]) (simp add: parent_index_ok_def)
  have cs'f: "cs' = filter (\<lambda>c. c \<noteq> n) cs"
    unfolding cs'_def using erase_filter[OF dcs k(1)] k(2) by simp
  have dcs': "distinct cs'" unfolding cs'f using dcs by simp
  have len: "length cs' = length cs - 1" using k(1) by (simp add: cs'_def)
  have lcs: "length cs \<le> 2 ^ 31" using sz1 pS by (simp add: sizes_ok_def cs_def)
  have len': "length cs' < 2 ^ 31" using len lcs k(1) by simp
  have k0: "0 \<le> int k" by simp
  note dc = decrement_from_spec[OF dcs' len' k0, of h1]
  note df = decrement_from_fields[OF dcs' len' k0, of h1]
  have dr: "drop k cs' = drop (Suc k) cs" unfolding cs'_def by (rule drop_erase[OF k(1)])
  have G1: "children (g a) = (if a = p then take k (children (h p)) @ drop (Suc k) (children (h p))
                               else children (h a))" for a
  proof -
    have "children (g a) = children (h2 a)" by (simp add: g_def)
    also have "\<dots> = children (h1 a)" using df[of a] by (simp add: h2_def)
    also have "\<dots> = (if a = p then take k (children (h p)) @ drop (Suc k) (children (h p))
                               else children (h a))"
      by (simp add: h1_def cs'_def cs_def)
    finally show ?thesis .
  qed
  have G2: "parent (g a) = (if a = n then None else parent (h a))" for a
  proof (cases "a = n")
    case True
    then show ?thesis by (simp add: g_def)
  next
    case False
    then have "parent (g a) = parent (h2 a)" by (simp add: g_def)
    also have "\<dots> = parent (h1 a)" using df[of a] by (simp add: h2_def)
    also have "\<dots> = parent (h a)" by (simp add: h1_def)
    finally show ?thesis using False by simp
  qed
  have G3b: "parent_index (g (children (h p) ! Suc j)) = int j"
    if "k \<le> j" "j < length (children (h p)) - 1" for j
  proof -
    have jl: "j < length cs - 1" using that by (simp add: cs_def)
    have e: "cs' ! j = cs ! Suc j" unfolding cs'_def using nth_erase[OF k(1) jl] that by simp
    have sj: "Suc j < length cs" using jl by simp
    have "cs ! Suc j \<noteq> cs ! k" using dcs sj k(1) that(1) by (simp add: nth_eq_iff_index_eq)
    then have ne: "cs ! Suc j \<noteq> n" using k(2) by simp
    have "nat (int k) \<le> j \<and> j < length cs'" using that(1) jl len by simp
    then have "h2 (cs' ! j) = (h1 (cs' ! j))\<lparr>parent_index := parent_index (h1 (cs' ! j)) - 1\<rparr>"
      using dc by (simp add: h2_def)
    moreover have "parent_index (h (cs ! Suc j)) = int (Suc j)"
      using pi pS sj by (simp add: parent_index_ok_def cs_def)
    then have "parent_index (h1 (cs ! Suc j)) = int (Suc j)" by (auto simp: h1_def)
    ultimately have "parent_index (h2 (cs ! Suc j)) = int j" using e by simp
    then show ?thesis using ne by (simp add: g_def cs_def)
  qed
  have G3c: "parent_index (g a) = parent_index (h a)"
    if "a \<noteq> n" "a \<notin> set (drop (Suc k) (children (h p)))" for a
  proof -
    have "a \<notin> set (drop (nat (int k)) cs')" using dr that(2) by (simp add: cs_def)
    then have "h2 a = h1 a" using dc by (simp add: h2_def)
    then show ?thesis using that(1) by (simp add: g_def h1_def)
  qed
  have il: "k < length (children (h p))" and ni: "children (h p) ! k = n"
    using k by (simp_all add: cs_def)
  from detach_child[of h "roots t" ?S p k n g, OF pi po pS il ni G1 G2 G3b G3c]
  have pi': "parent_index_ok g (roots t) ?S" and po': "parent_ok g (roots t) ?S" by simp_all
  have "filter (\<lambda>c. c \<noteq> n) (roots t) = roots t" using nr by (auto simp: filter_id_conv)
  then have rs: "roots t = filter (\<lambda>c. c \<noteq> n) (roots t)" by simp
  have ch: "children (g q) = filter (\<lambda>c. c \<noteq> n) (children (h q))" if q: "q \<in> ?S" for q
  proof (cases "q = p")
    case True
    then show ?thesis using G1[of p] cs'f by (simp add: cs'_def cs_def)
  next
    case False
    have "n \<notin> set (children (h q))"
    proof
      assume "n \<in> set (children (h q))"
      then have "parent (h n) = Some q" using po q by (simp add: parent_ok_def)
      then show False using pn False by simp
    qed
    then have "filter (\<lambda>c. c \<noteq> n) (children (h q)) = children (h q)"
      by (auto simp: filter_id_conv)
    then show ?thesis using G1[of q] False by simp
  qed
  have pi'': "parent_index_ok g (filter (\<lambda>c. c \<noteq> n) (roots t)) ?S" using pi' rs by simp
  have po'': "parent_ok g (filter (\<lambda>c. c \<noteq> n) (roots t)) ?S" using po' rs by simp
  from detach_inv[OF inv nS fu refl ch pi'' po''] obtain h5 h6 pos where
    b: "updateBSData fuel (roots t) g = Some (h5, pos)"
    and a: "updateDepth fuel (parent (h5 n)) n h5 = Some h6"
    and c: "tree_inv h6 (t\<lparr>roots := roots t\<rparr>) (del_forest n ts)"
    using rs by auto
  have pin1: "parent_index (h1 n) = int k" using pin by (auto simp: h1_def)
  have ch1: "children (h1 p) = cs'" by (simp add: h1_def)
  have "Tree_remove fuel (Some n) (h, t) = Some (Some n, h6, t)"
    using a b pn pin k(1) unfolding g_def h2_def h1_def cs'_def cs_def
    by (cases "n = p"; simp add: Tree_remove_def vector_erase_def Let_def)
  then show ?thesis using c by auto
qed

lemma remove_root:
  assumes inv: "tree_inv h t ts" and nS: "n \<in> set (preorder_forest ts)"
    and pn: "parent (h n) = None" and fu: "height_forest ts \<le> fuel"
  shows "\<exists>h'. Tree_remove fuel (Some n) (h, t) =
                Some (Some n, h', t\<lparr>roots := filter (\<lambda>c. c \<noteq> n) (roots t)\<rparr>) \<and>
           tree_inv h' (t\<lparr>roots := filter (\<lambda>c. c \<noteq> n) (roots t)\<rparr>) (del_forest n ts)"
proof -
  let ?S = "set (preorder_forest ts)"
  have sf: "shaped_forest h (roots t) ts" and pi: "parent_index_ok h (roots t) ?S"
    and po: "parent_ok h (roots t) ?S" and sz1: "sizes_ok h (roots t) ?S"
    using inv by (simp_all add: tree_inv_def)
  have nc: "n \<notin> set (children (h q))" if q: "q \<in> ?S" for q
  proof
    assume "n \<in> set (children (h q))"
    then have "parent (h n) = Some q" using po q by (simp add: parent_ok_def)
    then show False using pn by simp
  qed
  with root_or_child_forest[OF nS sf] have "n \<in> set (roots t)" by blast
  then obtain k where k: "k < length (roots t)" "roots t ! k = n" by (auto simp: in_set_conv_nth)
  have pin: "parent_index (h n) = int k" using pi k by (auto simp: parent_index_ok_def)
  define rs where "rs = take k (roots t) @ drop (Suc k) (roots t)"
  define g where "g = decrement_from (int k) rs h"
  have drs: "distinct (roots t)"
    using pi by (intro distinct_of_index[of _ h]) (simp add: parent_index_ok_def)
  have rsf: "rs = filter (\<lambda>c. c \<noteq> n) (roots t)"
    unfolding rs_def using erase_filter[OF drs k(1)] k(2) by simp
  have drs': "distinct rs" unfolding rsf using drs by simp
  have len: "length rs = length (roots t) - 1" using k(1) by (simp add: rs_def)
  have lrs: "length (roots t) \<le> 2 ^ 31" using sz1 by (simp add: sizes_ok_def)
  have len': "length rs < 2 ^ 31" using len lrs k(1) by simp
  have k0: "0 \<le> int k" by simp
  note dc = decrement_from_spec[OF drs' len' k0, of h]
  note df = decrement_from_fields[OF drs' len' k0, of h]
  have dr: "drop k rs = drop (Suc k) (roots t)" unfolding rs_def by (rule drop_erase[OF k(1)])
  have G1: "children (g a) = children (h a)" for a using df[of a] by (simp add: g_def)
  have G2: "parent (g a) = parent (h a)" for a using df[of a] by (simp add: g_def)
  have G3b: "parent_index (g (roots t ! Suc j)) = int j"
    if "k \<le> j" "j < length (roots t) - 1" for j
  proof -
    have e: "rs ! j = roots t ! Suc j" unfolding rs_def using nth_erase[OF k(1) that(2)] that by simp
    have sj: "Suc j < length (roots t)" using that(2) by simp
    have "nat (int k) \<le> j \<and> j < length rs" using that len by simp
    then have "g (rs ! j) = (h (rs ! j))\<lparr>parent_index := parent_index (h (rs ! j)) - 1\<rparr>"
      using dc by (simp add: g_def)
    moreover have "parent_index (h (roots t ! Suc j)) = int (Suc j)"
      using pi sj by (auto simp: parent_index_ok_def)
    ultimately show ?thesis using e by simp
  qed
  have G3c: "parent_index (g a) = parent_index (h a)"
    if "a \<notin> set (drop (Suc k) (roots t))" for a
  proof -
    have "a \<notin> set (drop (nat (int k)) rs)" using dr that by simp
    then have "g a = h a" using dc by (simp add: g_def)
    then show ?thesis by simp
  qed
  from detach_root[of h "roots t" ?S k g, OF pi po k(1) G1 G2 G3b G3c]
  have pi': "parent_index_ok g rs ?S" and po': "parent_ok g rs ?S" by (simp_all add: rs_def)
  have ch: "children (g q) = filter (\<lambda>c. c \<noteq> n) (children (h q))" if q: "q \<in> ?S" for q
  proof -
    have "filter (\<lambda>c. c \<noteq> n) (children (h q)) = children (h q)"
      using nc[OF q] by (auto simp: filter_id_conv)
    then show ?thesis using G1[of q] by simp
  qed
  from detach_inv[OF inv nS fu rsf ch pi' po'] obtain h5 h6 pos where
    b: "updateBSData fuel rs g = Some (h5, pos)"
    and a: "updateDepth fuel (parent (h5 n)) n h5 = Some h6"
    and c: "tree_inv h6 (t\<lparr>roots := rs\<rparr>) (del_forest n ts)"
    by auto
  have "Tree_remove fuel (Some n) (h, t) = Some (Some n, h6, t\<lparr>roots := rs\<rparr>)"
    using a b pn pin k(1)
    by (simp add: Tree_remove_def vector_erase_def Let_def rs_def[symmetric] g_def[symmetric])
  then show ?thesis using c rsf by auto
qed

lemma preorder_forest_leaves: "preorder_forest (leaves ns) = ns"
  by (induction ns) (simp_all add: leaves_def preorder_forest_def)

lemma height_forest_leaves: "height_forest (leaves ns) \<le> 1"
  unfolding height_forest_le_iff by (auto simp: leaves_def)

lemma shaped_forest_leaves:
  "(\<And>r. r \<in> set ns \<Longrightarrow> children (h r) = []) \<Longrightarrow> shaped_forest h ns (leaves ns)"
  by (auto simp: shaped_forest_def leaves_def list_all_iff o_def map_idI)

lemma big_model_inv: "tree_inv big_heap big_tree (leaves [0 ..< 2 ^ 31])"
  unfolding tree_inv_def preorder_forest_leaves
proof (intro conjI)
  show "shaped_forest big_heap (roots big_tree) (leaves [0 ..< 2 ^ 31])"
    unfolding big_tree_def Tree.simps
    by (rule shaped_forest_leaves) (simp add: big_heap_def new_node_def)
  show "parent_index_ok big_heap (roots big_tree) (set [0 ..< 2 ^ 31])"
    by (simp add: parent_index_ok_def big_tree_def big_heap_def new_node_def del: upt_rec_numeral)
  show "parent_ok big_heap (roots big_tree) (set [0 ..< 2 ^ 31])"
    by (simp add: parent_ok_def big_tree_def big_heap_def new_node_def del: upt_rec_numeral)
  show "sizes_ok big_heap (roots big_tree) (set [0 ..< 2 ^ 31])"
    by (simp add: sizes_ok_def big_tree_def big_heap_def new_node_def del: upt_rec_numeral)
qed

lemma big_model_detached: "detached big_heap (leaves [0 ..< 2 ^ 31]) (RNode (2 ^ 31) [])"
  unfolding detached_def preorder_forest_leaves
  by (simp add: big_heap_def new_node_def parent_index_ok_def parent_ok_def sizes_ok_def
        del: upt_rec_numeral)

lemma parent_index_ok_lists:
  assumes "parent_index_ok h rts S"
  shows "map (\<lambda>a. parent_index (h a)) rts = map int [0 ..< length rts]"
    and "p \<in> S \<Longrightarrow> map (\<lambda>a. parent_index (h a)) (children (h p)) =
                      map int [0 ..< length (children (h p))]"
  using assms by (auto simp: parent_index_ok_def intro!: nth_equalityI)

subsection \<open>The claims\<close>

text \<open>C1, as the claim states it, fails on the code where an index does not fit the
  \<^verbatim>\<open>i32\<close> field. The model \<open>big_tree\<close> is well formed (lemma \<open>big_model_inv\<close>: every root has its
  index as \<open>parent_index\<close>), and the node at address \<open>2\<^sup>3\<^sup>1\<close> is fresh and detached (lemma
  \<open>big_model_detached\<close>). \<^verbatim>\<open>append(nullptr, node)\<close> returns with the node at index \<open>2\<^sup>3\<^sup>1\<close> of the
  roots vector, and \<^verbatim>\<open>node->parent_index = roots.size() - 1\<close> has stored \<open>- 2\<^sup>3\<^sup>1\<close>.\<close>

theorem append_index_wraps:
  "map_option (\<lambda>(r, h', t'). (roots t' ! (2 ^ 31), parent_index (h' (2 ^ 31))))
     (Tree_append 1 None (2 ^ 31) (big_heap, big_tree)) = Some (2 ^ 31, - (2 ^ 31))"
proof -
  define n :: nat where "n = 2 ^ 31"
  define rts where "rts = [0 ..< n]"
  define h2 where "h2 = big_heap(n := (big_heap n)\<lparr>parent := None,
                           parent_index := last_index_i32 (rts @ [n])\<rparr>)"
  define h3 where "h3 = h2(n := (h2 n)\<lparr>depth := 1\<rparr>)"
  have lr: "length rts = n" by (simp add: rts_def)
  have li: "last_index_i32 (rts @ [n]) = - (2 ^ 31)"
    by (simp add: last_index_i32_def lr n_def u64_def cast_i32_def)
  have dn: "depth (h2 n) = 0" by (simp add: h2_def big_heap_def new_node_def n_def)
  have cn: "children (h3 a) = []" for a
    by (simp add: h3_def h2_def big_heap_def new_node_def)
  have ud: "updateDepth 1 None n h2 = Some h3"
    using dn cn[of n] by (simp add: updateDepth_def h3_def forEachNode_def Let_def)
  have sf: "shaped_forest h3 (rts @ [n]) (leaves (rts @ [n]))"
    by (rule shaped_forest_leaves) (rule cn)
  from updateBSData_links[OF sf height_forest_leaves] obtain h4 pos where
    ub: "updateBSData 1 (rts @ [n]) h3 = Some (h4, pos)" and l: "same_links h3 h4" by blast
  have "Tree_append 1 None n (big_heap, big_tree) = Some (n, h4, \<lparr>roots = rts @ [n]\<rparr>)"
    using ud ub
    by (simp add: Tree_append_def big_tree_def Let_def h2_def rts_def n_def del: upt_rec_numeral)
  moreover have "parent_index (h4 n) = - (2 ^ 31)"
    using same_linksD[OF l, of n] li by (simp add: h3_def h2_def)
  moreover have "(rts @ [n]) ! n = n" using lr by (simp add: nth_append)
  ultimately show ?thesis by (simp add: n_def)
qed

text \<open>C1, amended. Let the model be well formed before the call: the roots and their
  descendants form a forest \<open>ts\<close>, every root has its index in the roots vector as
  \<open>parent_index\<close> and no parent, every child has its index in the \<open>children\<close> vector of its
  parent as \<open>parent_index\<close> and points back at that parent, and no vector has more than
  \<open>2\<^sup>3\<^sup>1\<close> entries. Then

  \<^item> \<^verbatim>\<open>append(parent, node)\<close> and \<^verbatim>\<open>insert(parent, index, node)\<close>, called with a detached node
    (no parent, its own subtree \<open>tn\<close> well formed and disjoint from the tree), with a
    parent that is null or a node of the tree, with fewer than \<open>2\<^sup>3\<^sup>1\<close> nodes in the vector
    that receives the node and, for \<^verbatim>\<open>insert\<close>, an index not beyond the end of that vector,
    return the node;

  \<^item> \<^verbatim>\<open>remove(node)\<close>, called with a node of the tree, returns the node, which is then no
    longer in the tree;

  and in each case the model is well formed again when the call returns, \<open>tree_inv\<close> for
  the new forest: every node still in the tree has \<open>parent_index\<close> equal to its index in
  the \<open>children\<close> vector of its parent, and every root has \<open>parent_index\<close> equal to its
  index in the roots vector. The fuel has to cover the height of the tree.\<close>

theorem mutation_keeps_parent_index:
  assumes inv: "tree_inv h t ts"
  shows "(detached h ts tn \<and> set_option par \<subseteq> set (preorder_forest ts) \<and>
          length (siblings h t par) < 2 ^ 31 \<and> height_forest ts + height tn \<le> fuel \<longrightarrow>
            (\<exists>h' t'. Tree_append fuel par (root_of tn) (h, t) = Some (root_of tn, h', t') \<and>
                     tree_inv h' t' (ins_forest par (length (siblings h t par)) tn ts))) \<and>
         (detached h ts tn \<and> set_option par \<subseteq> set (preorder_forest ts) \<and>
          i \<le> length (siblings h t par) \<and>
          length (siblings h t par) < 2 ^ 31 \<and> height_forest ts + height tn \<le> fuel \<longrightarrow>
            (\<exists>h' t'. Tree_insert fuel par i (root_of tn) (h, t) = Some (root_of tn, h', t') \<and>
                     tree_inv h' t' (ins_forest par i tn ts))) \<and>
         (n \<in> set (preorder_forest ts) \<and> height_forest ts \<le> fuel \<longrightarrow>
            (\<exists>h' t'. Tree_remove fuel (Some n) (h, t) = Some (Some n, h', t') \<and>
                     n \<notin> set (preorder_forest (del_forest n ts)) \<and>
                     tree_inv h' t' (del_forest n ts)))"
proof (intro conjI impI)
  assume a: "detached h ts tn \<and> set_option par \<subseteq> set (preorder_forest ts) \<and>
          length (siblings h t par) < 2 ^ 31 \<and> height_forest ts + height tn \<le> fuel"
  then have det: "detached h ts tn" and fu: "height_forest ts + height tn \<le> fuel" by simp_all
  show "\<exists>h' t'. Tree_append fuel par (root_of tn) (h, t) = Some (root_of tn, h', t') \<and>
                tree_inv h' t' (ins_forest par (length (siblings h t par)) tn ts)"
  proof (cases par)
    case None
    have sz: "length (roots t) < 2 ^ 31" using a None by (simp add: siblings_def)
    have "length ts = length (roots t)" using inv by (simp add: tree_inv_def shaped_forest_def)
    then have "ins_forest par (length (siblings h t par)) tn ts = ts @ [tn]"
      using None by (simp add: ins_forest_def siblings_def)
    then show ?thesis using append_root[OF inv det sz fu] None by auto
  next
    case (Some p)
    have pS: "p \<in> set (preorder_forest ts)" and sz: "length (children (h p)) < 2 ^ 31"
      using a Some by (simp_all add: siblings_def)
    from insert_child[OF inv det pS order_refl sz fu] show ?thesis
      using Some append_child_insert[of h p fuel "root_of tn" t] sz
      by (auto simp: ins_forest_def siblings_def)
  qed
next
  assume a: "detached h ts tn \<and> set_option par \<subseteq> set (preorder_forest ts) \<and>
          i \<le> length (siblings h t par) \<and>
          length (siblings h t par) < 2 ^ 31 \<and> height_forest ts + height tn \<le> fuel"
  then have det: "detached h ts tn" and fu: "height_forest ts + height tn \<le> fuel" by simp_all
  show "\<exists>h' t'. Tree_insert fuel par i (root_of tn) (h, t) = Some (root_of tn, h', t') \<and>
                tree_inv h' t' (ins_forest par i tn ts)"
  proof (cases par)
    case None
    have sz: "length (roots t) < 2 ^ 31" and il: "i \<le> length (roots t)"
      using a None by (simp_all add: siblings_def)
    from insert_root[OF inv det il sz fu] show ?thesis using None by (auto simp: ins_forest_def)
  next
    case (Some p)
    have pS: "p \<in> set (preorder_forest ts)" and sz: "length (children (h p)) < 2 ^ 31"
      and il: "i \<le> length (children (h p))"
      using a Some by (simp_all add: siblings_def)
    from insert_child[OF inv det pS il sz fu] show ?thesis
      using Some by (auto simp: ins_forest_def)
  qed
next
  assume a: "n \<in> set (preorder_forest ts) \<and> height_forest ts \<le> fuel"
  then have nS: "n \<in> set (preorder_forest ts)" and fu: "height_forest ts \<le> fuel" by simp_all
  show "\<exists>h' t'. Tree_remove fuel (Some n) (h, t) = Some (Some n, h', t') \<and>
                n \<notin> set (preorder_forest (del_forest n ts)) \<and>
                tree_inv h' t' (del_forest n ts)"
  proof (cases "parent (h n)")
    case None
    from remove_root[OF inv nS None fu] show ?thesis using not_in_del_forest[of n ts] by blast
  next
    case (Some p)
    from remove_child[OF inv nS Some fu] show ?thesis using not_in_del_forest[of n ts] by blast
  qed
qed

theorem mutation_keeps_parent_index_witness:
  "tree_inv ex_heap \<lparr>roots = [1, 4]\<rparr> ex_forest \<and> detached ex_heap ex_forest (RNode 5 []) \<and>
   (\<exists>h' t'. Tree_append 3 (Some 1) 5 (ex_heap, \<lparr>roots = [1, 4]\<rparr>) = Some (5, h', t') \<and>
      roots t' = [1, 4] \<and> children (h' 1) = [2, 3, 5] \<and>
      map (\<lambda>a. parent_index (h' a)) [1, 4, 2, 3, 5] = [0, 1, 0, 1, 2]) \<and>
   (\<exists>h' t'. Tree_insert 3 (Some 1) 1 5 (ex_heap, \<lparr>roots = [1, 4]\<rparr>) = Some (5, h', t') \<and>
      roots t' = [1, 4] \<and> children (h' 1) = [2, 5, 3] \<and>
      map (\<lambda>a. parent_index (h' a)) [1, 4, 2, 5, 3] = [0, 1, 0, 1, 2]) \<and>
   (\<exists>h' t'. Tree_remove 3 (Some 1) (ex_heap, \<lparr>roots = [1, 4]\<rparr>) = Some (Some 1, h', t') \<and>
      roots t' = [4] \<and> parent_index (h' 4) = 0)"
proof -
  let ?t = "\<lparr>roots = [1, 4]\<rparr>"
  let ?tn = "RNode 5 []"
  have ns: "preorder_forest ex_forest = [1, 2, 3, 4]"
    by (simp add: preorder_forest_def ex_forest_def)
  have inv: "tree_inv ex_heap ?t ex_forest"
    unfolding tree_inv_def ns
    by (simp add: shaped_forest_def parent_index_ok_def parent_ok_def sizes_ok_def
          ex_heap_def ex_forest_def ex_node_def new_node_def less_Suc_eq)
  have det: "detached ex_heap ex_forest ?tn"
    unfolding detached_def ns
    by (simp add: parent_index_ok_def parent_ok_def sizes_ok_def ex_heap_def new_node_def)
  have hf: "height_forest ex_forest + height ?tn \<le> 3" "height_forest ex_forest \<le> 3"
    by (simp_all add: height_forest_def ex_forest_def)
  have sb: "siblings ex_heap ?t (Some 1) = [2, 3]"
    by (simp add: siblings_def ex_heap_def ex_node_def)
  note m = mutation_keeps_parent_index[OF inv, of ?tn "Some 1" 3 1 1]
  have f1: "ins_forest (Some 1) 2 ?tn ex_forest = [RNode 1 [RNode 2 [], RNode 3 [], ?tn], RNode 4 []]"
    by (simp add: ins_forest_def ex_forest_def)
  have f2: "ins_forest (Some 1) 1 ?tn ex_forest = [RNode 1 [RNode 2 [], ?tn, RNode 3 []], RNode 4 []]"
    by (simp add: ins_forest_def ex_forest_def)
  have f3: "del_forest 1 ex_forest = [RNode 4 []]"
    by (simp add: del_forest_def ex_forest_def)
  have len: "length (siblings ex_heap ?t (Some 1)) = 2" using sb by simp
  have a1: "detached ex_heap ex_forest ?tn \<and> set_option (Some 1) \<subseteq> set (preorder_forest ex_forest) \<and>
          length (siblings ex_heap ?t (Some 1)) < 2 ^ 31 \<and> height_forest ex_forest + height ?tn \<le> 3"
    using det hf(1) len by (simp add: ns)
  have a2: "detached ex_heap ex_forest ?tn \<and> set_option (Some 1) \<subseteq> set (preorder_forest ex_forest) \<and>
          1 \<le> length (siblings ex_heap ?t (Some 1)) \<and>
          length (siblings ex_heap ?t (Some 1)) < 2 ^ 31 \<and> height_forest ex_forest + height ?tn \<le> 3"
    using det hf(1) len by (simp add: ns)
  have a3: "1 \<in> set (preorder_forest ex_forest) \<and> height_forest ex_forest \<le> 3"
    using hf(2) by (simp add: ns)
  from m[THEN conjunct1, rule_format, OF a1] obtain h1 t1 where
    r1: "Tree_append 3 (Some 1) 5 (ex_heap, ?t) = Some (5, h1, t1)"
    and i1': "tree_inv h1 t1 (ins_forest (Some 1) (length (siblings ex_heap ?t (Some 1))) ?tn ex_forest)"
    by auto
  note i1 = i1'[unfolded len]
  have s1: "roots t1 = [1, 4]" "children (h1 1) = [2, 3, 5]"
    using i1 unfolding f1 by (simp_all add: tree_inv_def shaped_forest_def)
  have pi1: "parent_index_ok h1 [1, 4] {1, 2, 3, 5, 4}"
    using i1 s1 unfolding f1 by (simp add: tree_inv_def preorder_forest_def)
  have p1: "map (\<lambda>a. parent_index (h1 a)) [1, 4, 2, 3, 5] = [0, 1, 0, 1, 2]"
    using parent_index_ok_lists(1)[OF pi1] parent_index_ok_lists(2)[OF pi1, of 1] s1
    by (simp add: upt_rec)
  from m[THEN conjunct2, THEN conjunct1, rule_format, OF a2] obtain h2 t2 where
    r2: "Tree_insert 3 (Some 1) 1 5 (ex_heap, ?t) = Some (5, h2, t2)"
    and i2: "tree_inv h2 t2 (ins_forest (Some 1) 1 ?tn ex_forest)"
    by auto
  have s2: "roots t2 = [1, 4]" "children (h2 1) = [2, 5, 3]"
    using i2 unfolding f2 by (simp_all add: tree_inv_def shaped_forest_def)
  have pi2: "parent_index_ok h2 [1, 4] {1, 2, 5, 3, 4}"
    using i2 s2 unfolding f2 by (simp add: tree_inv_def preorder_forest_def)
  have p2: "map (\<lambda>a. parent_index (h2 a)) [1, 4, 2, 5, 3] = [0, 1, 0, 1, 2]"
    using parent_index_ok_lists(1)[OF pi2] parent_index_ok_lists(2)[OF pi2, of 1] s2
    by (simp add: upt_rec)
  from m[THEN conjunct2, THEN conjunct2, rule_format, OF a3] obtain h3 t3 where
    r3: "Tree_remove 3 (Some 1) (ex_heap, ?t) = Some (Some 1, h3, t3)"
    and i3: "tree_inv h3 t3 (del_forest 1 ex_forest)"
    by auto
  have s3: "roots t3 = [4]"
    using i3 unfolding f3 by (simp add: tree_inv_def shaped_forest_def)
  have pi3: "parent_index_ok h3 [4] {4}"
    using i3 s3 unfolding f3 by (simp add: tree_inv_def preorder_forest_def)
  have p3: "parent_index (h3 4) = 0"
    using parent_index_ok_lists(1)[OF pi3] by simp
  have e1: "\<exists>h' t'. Tree_append 3 (Some 1) 5 (ex_heap, ?t) = Some (5, h', t') \<and>
      roots t' = [1, 4] \<and> children (h' 1) = [2, 3, 5] \<and>
      map (\<lambda>a. parent_index (h' a)) [1, 4, 2, 3, 5] = [0, 1, 0, 1, 2]"
    by (rule exI[of _ h1], rule exI[of _ t1]) (intro conjI r1 s1 p1)
  have e2: "\<exists>h' t'. Tree_insert 3 (Some 1) 1 5 (ex_heap, ?t) = Some (5, h', t') \<and>
      roots t' = [1, 4] \<and> children (h' 1) = [2, 5, 3] \<and>
      map (\<lambda>a. parent_index (h' a)) [1, 4, 2, 5, 3] = [0, 1, 0, 1, 2]"
    by (rule exI[of _ h2], rule exI[of _ t2]) (intro conjI r2 s2 p2)
  have e3: "\<exists>h' t'. Tree_remove 3 (Some 1) (ex_heap, ?t) = Some (Some 1, h', t') \<and>
      roots t' = [4] \<and> parent_index (h' 4) = 0"
    by (rule exI[of _ h3], rule exI[of _ t3]) (intro conjI r3 s3 p3)
  show ?thesis by (intro conjI inv det e1 e2 e3)
qed



text \<open>C3. \<^verbatim>\<open>_updateBSData\<close> on a heap that holds a tree (the roots and their
  descendants form the forest \<open>ts\<close>, no node occurring twice) returns, and afterwards:
  the length of every node is what it was; the first node in depth-first pre-order has
  position 0; for consecutive nodes of that order, collapsed or not, the position of
  the next is the position of the current plus its length, computed as the code does in
  \<^verbatim>\<open>u64\<close>; the returned value is the sum of all lengths in \<^verbatim>\<open>u64\<close>. When that sum fits
  in 64 bits nothing wraps: the equation holds in the naturals, the positions are
  non-decreasing along the order, and the returned value is the total extent.\<close>

theorem updateBSData_index:
  assumes "shaped_forest h rts ts" "distinct (preorder_forest ts)" "height_forest ts \<le> fuel"
  shows "\<exists>h' total. updateBSData fuel rts h = Some (h', total) \<and>
     total = sum_list (map (len_of h) (preorder_forest ts)) mod 2 ^ 64 \<and>
     (\<forall>m. len_of h' m = len_of h m) \<and>
     (preorder_forest ts \<noteq> [] \<longrightarrow> pos_of h' (hd (preorder_forest ts)) = 0) \<and>
     (\<forall>i. Suc i < length (preorder_forest ts) \<longrightarrow>
          pos_of h' (preorder_forest ts ! Suc i) =
          (pos_of h' (preorder_forest ts ! i) + len_of h' (preorder_forest ts ! i)) mod 2 ^ 64) \<and>
     (sum_list (map (len_of h) (preorder_forest ts)) < 2 ^ 64 \<longrightarrow>
        total = sum_list (map (len_of h) (preorder_forest ts)) \<and>
        (\<forall>i. Suc i < length (preorder_forest ts) \<longrightarrow>
             pos_of h' (preorder_forest ts ! Suc i) =
             pos_of h' (preorder_forest ts ! i) + len_of h' (preorder_forest ts ! i)) \<and>
        (\<forall>i j. i \<le> j \<and> j < length (preorder_forest ts) \<longrightarrow>
             pos_of h' (preorder_forest ts ! i) \<le> pos_of h' (preorder_forest ts ! j)))"
proof -
  let ?ns = "preorder_forest ts"
  let ?lens = "map (len_of h) ?ns"
  let ?S = "\<lambda>i. sum_list (take i ?lens)"
  from fold_updateBSData[OF assms(2), of 0 h] obtain h' where
    f: "fold_visit updateBSData_visitor ?ns (h, 0) = Some (h', sum_list ?lens mod 2 ^ 64)"
    and fr: "\<And>m. h' m = (if m \<in> set ?ns then (h m)\<lparr>bs_data := (bs_data (h m))\<lparr>position := pos_of h' m\<rparr>\<rparr> else h m)"
    and ps: "\<And>i. i < length ?ns \<Longrightarrow> pos_of h' (?ns ! i) = (if i = 0 then 0 else (0 + sum_list (map (len_of h) (take i ?ns))) mod 2 ^ 64)"
    by auto
  have run: "updateBSData fuel rts h = Some (h', sum_list ?lens mod 2 ^ 64)"
    unfolding updateBSData_def
    using forEachNode_fold[OF updateBSData_visitor_only_continues updateBSData_visitor_keeps assms(1,3), of 0] f
    by simp
  have len: "len_of h' m = len_of h m" for m
    using fr[of m] by (cases "m \<in> set ?ns") (simp_all add: len_of_def)
  have pos: "pos_of h' (?ns ! i) = ?S i mod 2 ^ 64" if "i < length ?ns" for i
    using ps[OF that] by (cases "i = 0") (simp_all add: take_map)
  have first: "?ns \<noteq> [] \<Longrightarrow> pos_of h' (hd ?ns) = 0"
    using pos[of 0] by (simp add: hd_conv_nth)
  have Ssuc: "?S (Suc i) = ?S i + len_of h (?ns ! i)" if "Suc i < length ?ns" for i
    using that by (simp add: take_Suc_conv_app_nth)
  have nxt: "pos_of h' (?ns ! Suc i) = (pos_of h' (?ns ! i) + len_of h' (?ns ! i)) mod 2 ^ 64"
    if "Suc i < length ?ns" for i
    using that pos[of i] pos[of "Suc i"] Ssuc[OF that] by (simp add: len mod_add_left_eq)
  have exact: "pos_of h' (?ns ! i) = ?S i" if "sum_list ?lens < 2 ^ 64" "i < length ?ns" for i
  proof -
    have "?S i \<le> sum_list ?lens" by (rule sum_list_take_le)
    with that(1) have "?S i < 2 ^ 64" by simp
    with pos[OF that(2)] show ?thesis by simp
  qed
  have nxt': "pos_of h' (?ns ! Suc i) = pos_of h' (?ns ! i) + len_of h' (?ns ! i)"
    if "sum_list ?lens < 2 ^ 64" "Suc i < length ?ns" for i
    using exact[OF that(1), of i] exact[OF that(1), of "Suc i"] Ssuc[OF that(2)] that(2) by (simp add: len)
  have mono: "pos_of h' (?ns ! i) \<le> pos_of h' (?ns ! j)"
    if "sum_list ?lens < 2 ^ 64" "i \<le> j" "j < length ?ns" for i j
    using exact[OF that(1), of i] exact[OF that(1), of j] sum_list_take_mono[OF that(2), of ?lens] that by simp
  show ?thesis
    using run len first nxt nxt' mono by (intro exI[of _ h'] exI[of _ "sum_list ?lens mod 2 ^ 64"]) simp
qed

theorem updateBSData_index_witness:
  "shaped_forest ex_heap [1, 4] ex_forest \<and> distinct (preorder_forest ex_forest) \<and>
   height_forest ex_forest \<le> 2 \<and>
   (\<exists>h' total. updateBSData 2 [1, 4] ex_heap = Some (h', total) \<and> total = 40 \<and>
      pos_of h' 1 = 0 \<and> pos_of h' 4 = pos_of h' 3 + len_of h' 3 \<and> pos_of h' 2 \<le> pos_of h' 4)"
proof -
  have a: "shaped_forest ex_heap [1, 4] ex_forest"
    by (simp add: shaped_forest_def ex_heap_def ex_forest_def ex_node_def)
  have b: "distinct (preorder_forest ex_forest)"
    by (simp add: preorder_forest_def ex_forest_def)
  have c: "height_forest ex_forest \<le> 2"
    by (simp add: height_forest_def ex_forest_def)
  have ns: "preorder_forest ex_forest = [1, 2, 3, 4]"
    by (simp add: preorder_forest_def ex_forest_def)
  have s: "sum_list (map (len_of ex_heap) [1, 2, 3, 4]) = 40"
    by (simp add: len_of_def ex_heap_def ex_node_def)
  from updateBSData_index[OF a b c] obtain h' total where
    r: "updateBSData 2 [1, 4] ex_heap = Some (h', total)"
    and t: "total = sum_list (map (len_of ex_heap) (preorder_forest ex_forest)) mod 2 ^ 64"
    and f: "preorder_forest ex_forest \<noteq> [] \<longrightarrow> pos_of h' (hd (preorder_forest ex_forest)) = 0"
    and n: "sum_list (map (len_of ex_heap) (preorder_forest ex_forest)) < 2 ^ 64 \<longrightarrow>
        total = sum_list (map (len_of ex_heap) (preorder_forest ex_forest)) \<and>
        (\<forall>i. Suc i < length (preorder_forest ex_forest) \<longrightarrow>
             pos_of h' (preorder_forest ex_forest ! Suc i) =
             pos_of h' (preorder_forest ex_forest ! i) + len_of h' (preorder_forest ex_forest ! i)) \<and>
        (\<forall>i j. i \<le> j \<and> j < length (preorder_forest ex_forest) \<longrightarrow>
             pos_of h' (preorder_forest ex_forest ! i) \<le> pos_of h' (preorder_forest ex_forest ! j))"
    by blast
  have big: "sum_list (map (len_of ex_heap) (preorder_forest ex_forest)) < 2 ^ 64"
    unfolding ns s by simp
  note n' = n[rule_format, OF big]
  have n1: "pos_of h' 4 = pos_of h' 3 + len_of h' 3"
    using n'[THEN conjunct2, THEN conjunct1, rule_format, of 2] by (simp add: ns)
  have n2: "pos_of h' 2 \<le> pos_of h' 4"
    using n'[THEN conjunct2, THEN conjunct2, rule_format, of 1 3] by (simp add: ns)
  have t': "total = 40" using t unfolding ns s by simp
  have f': "pos_of h' 1 = 0" using f unfolding ns by simp
  show ?thesis using a b c r t' f' n1 n2 by simp
qed


text \<open>C10. \<^verbatim>\<open>Tree::remove\<close> called with a null node returns null and leaves the model as it
  was: the same roots and the same heap, hence the same parent, parent_index, depth and
  position-index fields of every node. This holds for every amount of fuel.\<close>

theorem remove_null: "Tree_remove fuel None (h, t) = Some (None, h, t)"
  by (simp add: Tree_remove_def)

text \<open>C7. \<^verbatim>\<open>forEachNode\<close> on a heap that holds the forest \<open>ts\<close> returns, and the nodes
  its visitor was called on, in the order of the calls, are those the specification
  names: depth first, pre-order, children in child-sequence order; after an answer
  \<^verbatim>\<open>Next\<close> the children of that node are skipped and the walk goes on with the next
  sibling, or with the next sibling of an ancestor; after an answer \<^verbatim>\<open>Break\<close> no further
  node is visited at any level. With a visitor that always answers \<^verbatim>\<open>Continue\<close> the
  order is the whole pre-order.\<close>

theorem forEachNode_order:
  assumes "shaped_forest h rts ts" "height_forest ts \<le> fuel"
  shows "forEachNode fuel rts (Some (log_visitor dec)) (h, []) = Some (h, spec_visited dec ts) \<and>
         ((\<forall>n. dec n = Continue) \<longrightarrow> spec_visited dec ts = preorder_forest ts)"
proof -
  from walk_list_log_aux[of ts dec h None Continue "[]", OF walk_log]
  obtain l e' where
    "walk_list (Some (log_visitor dec)) ts (None, Continue, h, []) =
            Some (l, e', h, [] @ upto_break dec (concat (map (pruned dec) ts)))"
    by blast
  then have "forEachNode fuel rts (Some (log_visitor dec)) (h, []) = Some (h, spec_visited dec ts)"
    using forEachNode_walk[OF log_visitor_keeps[of dec] assms, of "[]"]
    by (simp add: spec_visited_def)
  then show ?thesis using spec_visited_all_continue[of dec ts] by blast
qed

theorem forEachNode_order_witness:
  "shaped_forest ex_heap [1, 4] ex_forest \<and> height_forest ex_forest \<le> 2 \<and>
   forEachNode 2 [1, 4] (Some (log_visitor (\<lambda>n. if n = 1 then Next else Continue))) (ex_heap, []) =
     Some (ex_heap, [1, 4]) \<and>
   forEachNode 2 [1, 4] (Some (log_visitor (\<lambda>n. if n = 2 then Break else Continue))) (ex_heap, []) =
     Some (ex_heap, [1, 2]) \<and>
   forEachNode 2 [1, 4] (Some (log_visitor (\<lambda>n. Continue))) (ex_heap, []) =
     Some (ex_heap, [1, 2, 3, 4])"
proof -
  have a: "shaped_forest ex_heap [1, 4] ex_forest"
    by (simp add: shaped_forest_def ex_heap_def ex_forest_def ex_node_def)
  have c: "height_forest ex_forest \<le> 2"
    by (simp add: height_forest_def ex_forest_def)
  have v1: "spec_visited (\<lambda>n. if n = 1 then Next else Continue) ex_forest = [1, 4]"
    by (simp add: spec_visited_def ex_forest_def)
  have v2: "spec_visited (\<lambda>n. if n = 2 then Break else Continue) ex_forest = [1, 2]"
    by (simp add: spec_visited_def ex_forest_def)
  have v3: "spec_visited (\<lambda>n. Continue) ex_forest = [1, 2, 3, 4]"
    by (simp add: spec_visited_def ex_forest_def)
  show ?thesis
    using a c forEachNode_order[OF a c, of "\<lambda>n. if n = 1 then Next else Continue"]
      forEachNode_order[OF a c, of "\<lambda>n. if n = 2 then Break else Continue"]
      forEachNode_order[OF a c, of "\<lambda>n. Continue"]
    unfolding v1 v2 v3 by simp
qed

text \<open>C2, the code at a failing input. After the five appends every depth is right
  (1, 2, 2, 3 and 1). After node 1 is moved under node 5 its depth is 2 and the depth of
  its children 2 and 3 is 3, but node 4, the child of node 3, has depth 3 as well, not 4:
  the walk of \<^verbatim>\<open>_updateDepth\<close> lowers its running depth when it passes the last child of
  a vector, before it has visited that child's own children.\<close>

theorem updateDepth_wrong_after_move:
  "snapshot [1, 2, 3, 4, 5] built_model =
     Some ([1, 5],
       [(None, 0, [2, 3], 1), (Some 1, 0, [], 2), (Some 1, 1, [4], 2), (Some 3, 0, [], 3),
        (None, 1, [], 1)]) \<and>
   snapshot [1, 2, 3, 4, 5] moved_model =
     Some ([5],
       [(Some 5, 0, [2, 3], 2), (Some 1, 0, [], 3), (Some 1, 1, [4], 3), (Some 3, 0, [], 3),
        (None, 0, [1], 1)])"
  by (simp add: run_tree snapshot_def built_model_def moved_model_def)

text \<open>C9, as the claim states it, fails on the code: \<^verbatim>\<open>setModel\<close> does not touch
  \<^verbatim>\<open>drop_action\<close>, the descriptor of the pending drop target. On the sample view, which
  holds a pending drop on node 4, the hovered node is cleared and the drop target is
  still node 4.\<close>

theorem setModel_keeps_drop_action:
  "map_option (\<lambda>v'. (m_hovered v', drop_node (drop_action v'))) (setModel None ex_view) =
     Some (None, Some 4)"
  by (simp add: setModel_def ex_view_def)

text \<open>C9, amended. \<^verbatim>\<open>setModel\<close> (when \<^verbatim>\<open>m_last_sort\<close> is null or points at a column of the
  view) returns, installs the model it is given, and clears the hovered node, the
  keyboard cursor, the selection, the node of the pending mouse event and the highlighted
  collapser; it clears \<^verbatim>\<open>m_last_sort\<close> and, when the column it pointed at has a comparator,
  sets the sort state of that column to \<^verbatim>\<open>None\<close>. It leaves \<^verbatim>\<open>drop_action\<close> as it was.\<close>

theorem setModel_resets:
  assumes "case m_last_sort v of None \<Rightarrow> True | Some ci \<Rightarrow> ci < length (view_columns v)"
  shows "\<exists>v'. setModel model v = Some v' \<and>
           m_model v' = model \<and> m_hovered v' = None \<and> m_cursor v' = None \<and>
           m_focused v' = [] \<and> m_event_node v' = None \<and> m_tree_collapser v' = None \<and>
           m_last_sort v' = None \<and>
           (case m_last_sort v of
              None \<Rightarrow> True
            | Some ci \<Rightarrow> sort_fn (view_columns v ! ci) = None \<or>
                         m_sort (view_columns v' ! ci) = Sort_None) \<and>
           drop_action v' = drop_action v"
  using assms
  by (cases "m_last_sort v") (auto simp: setModel_def Column_sort_None_def Let_def)

theorem setModel_resets_witness:
  "(case m_last_sort ex_view of None \<Rightarrow> True | Some ci \<Rightarrow> ci < length (view_columns ex_view)) \<and>
   (\<exists>v'. setModel None ex_view = Some v' \<and> m_model v' = None \<and> m_hovered v' = None \<and>
      m_cursor v' = None \<and> m_focused v' = [] \<and> m_last_sort v' = None \<and>
      m_sort (view_columns v' ! 0) = Sort_None \<and> drop_action v' = drop_action ex_view)"
proof -
  have a: "case m_last_sort ex_view of None \<Rightarrow> True | Some ci \<Rightarrow> ci < length (view_columns ex_view)"
    by (simp add: ex_view_def)
  have l: "m_last_sort ex_view = Some 0" "sort_fn (view_columns ex_view ! 0) \<noteq> None"
    by (simp_all add: ex_view_def ex_column_def)
  from setModel_resets[OF a, of None] l a show ?thesis by auto
qed

text \<open>C6, as the claim states it, fails on the code: \<^verbatim>\<open>Tree::remove\<close> has no access to a
  view. Removing node 4 from the model of the sample view, where it is hovered, selected
  and under the cursor, returns the detached node, takes it out of the roots, and leaves
  all three references pointing at it.\<close>

theorem remove_keeps_references:
  "map_option (\<lambda>(r, h', v'). (r, m_model v', m_hovered v', m_cursor v', m_focused v'))
     (model_remove 2 (Some 4) (ex_heap, ex_view)) =
   Some (Some 4, Some \<lparr>roots = [1]\<rparr>, Some 4, Some 4, [4])"
  by (simp add: model_remove_def ex_view_def ex_heap_def ex_node_def run_tree)

text \<open>C6, amended. When a node is detached from the model of a view by \<^verbatim>\<open>remove\<close>, the
  hovered node, the keyboard cursor and the selection of the view are, when the call
  returns, exactly what they were before it, and so are the node of the pending mouse
  event, the highlighted collapser and the drop target: \<^verbatim>\<open>remove\<close> clears none of them, and
  a reference to the detached node that was held there is still held there.\<close>

theorem remove_leaves_view:
  assumes "model_remove fuel node (h, v) = Some (r, h', v')"
  shows "m_hovered v' = m_hovered v \<and> m_cursor v' = m_cursor v \<and> m_focused v' = m_focused v \<and>
         m_event_node v' = m_event_node v \<and> m_tree_collapser v' = m_tree_collapser v \<and>
         drop_action v' = drop_action v"
  using assms by (auto simp: model_remove_def split: option.splits)

theorem remove_leaves_view_witness:
  "\<exists>h' v'. model_remove 2 (Some 4) (ex_heap, ex_view) = Some (Some 4, h', v') \<and>
      m_hovered v' = Some 4 \<and> m_cursor v' = Some 4 \<and> m_focused v' = [4]"
proof -
  have "\<exists>h' v'. model_remove 2 (Some 4) (ex_heap, ex_view) = Some (Some 4, h', v')"
    by (simp add: model_remove_def ex_view_def ex_heap_def ex_node_def run_tree)
  then obtain h' v' where r: "model_remove 2 (Some 4) (ex_heap, ex_view) = Some (Some 4, h', v')"
    by blast
  from remove_leaves_view[OF r] r show ?thesis by (auto simp: ex_view_def)
qed

text \<open>C8, as the claim states it, fails on the code for a node that is collapsed to begin
  with: \<^verbatim>\<open>collapse\<close> does not test the flag, and the \<^verbatim>\<open>expand\<close> that follows leaves the
  node expanded. In the sample model with the first root collapsed, the index before is
  (0,10), (10,0), (10,0), (10,10); after collapsing node 1, expanding it and recomputing
  it is (0,10), (10,10), (20,10), (30,10).\<close>

theorem collapsed_node_not_restored:
  "Option.bind (calculateVirtualSize 2 (ex_heap_collapsed, ex_view)) (\<lambda>(h1, v1).
     map_option (\<lambda>(h3, v3).
         (children (h1 1), is_collapsed (h1 1),
          map (\<lambda>m. (pos_of h1 m, len_of h1 m)) [1, 2, 3, 4],
          map (\<lambda>m. (pos_of h3 m, len_of h3 m)) [1, 2, 3, 4]))
       (calculateVirtualSize 2 (expand (Some 1) (collapse (Some 1) (h1, v1))))) =
   Some ([2, 3], True,
         [(0, 10), (10, 0), (10, 0), (10, 10)],
         [(0, 10), (10, 10), (20, 10), (30, 10)])"
  by (simp add: run_view ex_heap_collapsed_def pos_of_def len_of_def)

text \<open>C8, amended. Let the virtual-size computation have run on a view whose model is a
  tree in the heap, giving the position index \<open>h1\<close>, and let \<open>n\<close> be a node that is not
  collapsed. Collapsing \<open>n\<close>, expanding it again and recomputing returns, and every node
  has the (position, length) pair it had in \<open>h1\<close>. The same holds when the index is also
  recomputed between the collapse and the expand, as a redraw does it. The size hints of
  the cells are part of the nodes and are not changed by any of the steps.\<close>

theorem collapse_expand_roundtrip:
  assumes mv: "m_model v0 = Some t" and sh: "shaped_forest h0 (roots t) ts"
    and fu: "height_forest ts \<le> fuel" and nc: "\<not> is_collapsed (h0 n)"
    and run: "calculateVirtualSize fuel (h0, v0) = Some (h1, v1)"
  shows "(\<exists>h3 v3. calculateVirtualSize fuel (expand (Some n) (collapse (Some n) (h1, v1))) = Some (h3, v3) \<and>
            (\<forall>m. bs_data (h3 m) = bs_data (h1 m))) \<and>
         (\<forall>hc vc. calculateVirtualSize fuel (collapse (Some n) (h1, v1)) = Some (hc, vc) \<longrightarrow>
            (\<exists>h3 v3. calculateVirtualSize fuel (expand (Some n) (hc, vc)) = Some (h3, v3) \<and>
               (\<forall>m. bs_data (h3 m) = bs_data (h1 m))))"
proof -
  let ?ns = "preorder_forest ts"
  from calc_same[OF mv mv refl refl refl sh fu same_layout_input_refl refl run]
  have fr1: "\<And>m. m \<notin> set ?ns \<Longrightarrow> bs_data (h1 m) = bs_data (h0 m)"
    and s01: "same_layout_input h0 h1" and ch1: "\<And>a. children (h1 a) = children (h0 a)"
    and mv1: "m_model v1 = Some t" and cols1: "length (view_columns v1) = length (view_columns v0)"
    and grid1: "m_grid_line_width v1 = m_grid_line_width v0"
    and csz1: "m_children_size_h v1 = m_children_size_h v0"
    by auto
  note f1 = same_layout_inputD[OF s01]
  obtain hx vx where cx: "collapse (Some n) (h1, v1) = (hx, vx)" by (cases "collapse (Some n) (h1, v1)")
  note fx = collapse_result[OF cx]
  have A: "\<exists>h3 v3. calculateVirtualSize fuel (expand (Some n) (collapse (Some n) (h1, v1))) = Some (h3, v3) \<and>
            (\<forall>m. bs_data (h3 m) = bs_data (h1 m))"
  proof -
    obtain h2 v2 where ex: "expand (Some n) (hx, vx) = (h2, v2)" by (cases "expand (Some n) (hx, vx)")
    note f2 = expand_result[OF ex]
    have sl: "same_layout_input h0 h2"
      by (rule same_layout_inputI) (use f1 fx f2 nc in auto)
    have ch: "\<And>a. children (h2 a) = children (h0 a)" using ch1 fx f2 by simp
    have mv2: "m_model v2 = Some t" using mv1 fx f2 by simp
    have cols2: "length (view_columns v2) = length (view_columns v0)" using cols1 fx f2 by simp
    have grid2: "m_grid_line_width v2 = m_grid_line_width v0" using grid1 fx f2 by simp
    have csz2: "m_children_size_h v2 = m_children_size_h v0" using csz1 fx f2 by simp
    from calc_same[OF mv mv2 cols2 grid2 csz2 sh fu sl ch run] obtain h3 v3 where
      r3: "calculateVirtualSize fuel (h2, v2) = Some (h3, v3)"
      and eq: "\<forall>m\<in>set ?ns. bs_data (h3 m) = bs_data (h1 m)"
      and fr: "\<forall>m. m \<notin> set ?ns \<longrightarrow> bs_data (h3 m) = bs_data (h2 m)"
      by blast
    have b21: "\<And>m. bs_data (h2 m) = bs_data (h1 m)" using fx f2 by simp
    have "bs_data (h3 m) = bs_data (h1 m)" for m
      using eq fr b21 by (cases "m \<in> set ?ns") simp_all
    then show ?thesis using r3 cx ex by simp
  qed
  have B: "\<exists>h3 v3. calculateVirtualSize fuel (expand (Some n) (hc, vc)) = Some (h3, v3) \<and>
               (\<forall>m. bs_data (h3 m) = bs_data (h1 m))"
    if rc: "calculateVirtualSize fuel (collapse (Some n) (h1, v1)) = Some (hc, vc)" for hc vc
  proof -
    have rc': "calculateVirtualSize fuel (hx, vx) = Some (hc, vc)" using rc cx by simp
    have chx: "\<And>a. children (hx a) = children (h0 a)" using ch1 fx by simp
    have shx: "shaped_forest hx (roots t) ts"
      using sh shaped_forest_cong_children[of hx h0, OF chx] by simp
    have mvx: "m_model vx = Some t" using mv1 fx by simp
    from calc_same[OF mvx mvx refl refl refl shx fu same_layout_input_refl refl rc']
    have frc: "\<And>m. m \<notin> set ?ns \<Longrightarrow> bs_data (hc m) = bs_data (hx m)"
      and sxc: "same_layout_input hx hc" and chc: "\<And>a. children (hc a) = children (hx a)"
      and mvc: "m_model vc = Some t" and colsc: "length (view_columns vc) = length (view_columns vx)"
      and gridc: "m_grid_line_width vc = m_grid_line_width vx"
      and cszc: "m_children_size_h vc = m_children_size_h vx"
      by auto
    note fc = same_layout_inputD[OF sxc]
    obtain he ve where ex: "expand (Some n) (hc, vc) = (he, ve)" by (cases "expand (Some n) (hc, vc)")
    note fe = expand_result[OF ex]
    have chn: "children (hc n) = children (h1 n)" using chc fx by simp
    have sl: "same_layout_input h0 he"
      by (rule same_layout_inputI) (use f1 fx fc fe nc chn in auto)
    have ch: "\<And>a. children (he a) = children (h0 a)" using chx chc fe by simp
    have mve: "m_model ve = Some t" using mvc fe by simp
    have colse: "length (view_columns ve) = length (view_columns v0)" using cols1 fx colsc fe by simp
    have gride: "m_grid_line_width ve = m_grid_line_width v0" using grid1 fx gridc fe by simp
    have csze: "m_children_size_h ve = m_children_size_h v0" using csz1 fx cszc fe by simp
    from calc_same[OF mv mve colse gride csze sh fu sl ch run] obtain h3 v3 where
      r3: "calculateVirtualSize fuel (he, ve) = Some (h3, v3)"
      and eq: "\<forall>m\<in>set ?ns. bs_data (h3 m) = bs_data (h1 m)"
      and fr: "\<forall>m. m \<notin> set ?ns \<longrightarrow> bs_data (h3 m) = bs_data (he m)"
      by blast
    have be1: "bs_data (he m) = bs_data (h1 m)" if "m \<notin> set ?ns" for m
      using frc[OF that] fx fe by simp
    have "bs_data (h3 m) = bs_data (h1 m)" for m
      using eq fr be1 by (cases "m \<in> set ?ns") simp_all
    then show ?thesis using r3 ex by simp
  qed
  show ?thesis using A B by blast
qed

theorem collapse_expand_roundtrip_witness:
  "m_model ex_view = Some \<lparr>roots = [1, 4]\<rparr> \<and> shaped_forest ex_heap [1, 4] ex_forest \<and>
   height_forest ex_forest \<le> 2 \<and> \<not> is_collapsed (ex_heap 1) \<and>
   (\<exists>h1 v1. calculateVirtualSize 2 (ex_heap, ex_view) = Some (h1, v1) \<and>
      map (pos_of h1) [1, 2, 3, 4] = [0, 10, 20, 30] \<and>
      (\<exists>h3 v3. calculateVirtualSize 2 (expand (Some 1) (collapse (Some 1) (h1, v1))) = Some (h3, v3) \<and>
         map (\<lambda>m. bs_data (h3 m)) [1, 2, 3, 4] = map (\<lambda>m. bs_data (h1 m)) [1, 2, 3, 4]))"
proof -
  have a: "m_model ex_view = Some \<lparr>roots = [1, 4]\<rparr>" by (simp add: ex_view_def)
  have b: "shaped_forest ex_heap (roots \<lparr>roots = [1, 4]\<rparr>) ex_forest"
    by (simp add: shaped_forest_def ex_heap_def ex_forest_def ex_node_def)
  have c: "height_forest ex_forest \<le> 2"
    by (simp add: height_forest_def ex_forest_def)
  have d: "\<not> is_collapsed (ex_heap 1)" by (simp add: ex_heap_def ex_node_def)
  have "\<exists>h1 v1. calculateVirtualSize 2 (ex_heap, ex_view) = Some (h1, v1) \<and>
      map (pos_of h1) [1, 2, 3, 4] = [0, 10, 20, 30]"
    by (simp add: run_view pos_of_def)
  then obtain h1 v1 where r: "calculateVirtualSize 2 (ex_heap, ex_view) = Some (h1, v1)"
    and p: "map (pos_of h1) [1, 2, 3, 4] = [0, 10, 20, 30]" by (elim exE conjE)
  from collapse_expand_roundtrip[OF a b c d r] obtain h3 v3 where
    "calculateVirtualSize 2 (expand (Some 1) (collapse (Some 1) (h1, v1))) = Some (h3, v3)"
    "\<forall>m. bs_data (h3 m) = bs_data (h1 m)" by blast
  then show ?thesis using a b c d r p by auto
qed

text \<open>C4, as the claim states it, fails on the code at the lower end of the interval: the
  tests of \<^verbatim>\<open>binarySearch\<close> are inclusive at both ends. In the sample model node 2 has no
  children and occupies the interval from 10 to 20; the target 10 lies in it and the
  search returns node 1, whose row ends at 10.\<close>

theorem binarySearch_boundary:
  "binarySearch 3 ex_heap [1, 4] 10 = Some (0, Some 1) \<and> children (ex_heap 2) = [] \<and>
   pos_of ex_heap 2 \<le> 10 \<and> 10 < pos_of ex_heap 2 + len_of ex_heap 2"
  by (simp add: binarySearch_numeral bs_loop.simps ex_heap_def ex_node_def pos_of_def len_of_def)

text \<open>C4, amended. For a roots vector whose nodes form a tree in the heap and carry a
  well-formed position index, and for every target, \<^verbatim>\<open>binarySearch\<close> returns; the result is
  absent if and only if the roots vector is empty or the target exceeds the total
  indexed extent; a node that is returned is a node of the tree whose position is at most
  the target and whose position plus length is at least the target; and for a target
  strictly inside the row of a node, position < target < position + length, the search
  returns exactly that node, whether the node has children or not.\<close>

theorem binarySearch_correct:
  assumes "shaped_forest h rts ts" "well_indexed h ts" "height_forest ts < fuel"
  shows "\<exists>i r. binarySearch fuel h rts target = Some (i, r) \<and>
           (r = None \<longleftrightarrow> rts = [] \<or> target > extent h (preorder_forest ts)) \<and>
           (\<forall>n. r = Some n \<longrightarrow> n \<in> set (preorder_forest ts) \<and> pos_of h n \<le> target \<and>
                  target \<le> pos_of h n + len_of h n) \<and>
           (\<forall>n\<in>set (preorder_forest ts).
               pos_of h n < target \<and> target < pos_of h n + len_of h n \<longrightarrow> r = Some n)"
proof (cases "ts = []")
  case True
  then have "rts = []" using assms(1) by (simp add: shaped_forest_def)
  moreover obtain k where "fuel = Suc k" using assms(3) by (cases fuel) auto
  ultimately show ?thesis using True by (simp add: preorder_forest_Nil)
next
  case False
  have rts: "rts = map root_of ts" and sh: "list_all (shaped h) ts"
    using assms(1) by (simp_all add: shaped_forest_def)
  have run: "running h 0 (preorder_forest ts)" and ext: "0 + extent h (preorder_forest ts) < 2 ^ 64"
    using assms(2) by (simp_all add: well_indexed_def)
  have ne: "rts \<noteq> []" unfolding rts using False by simp
  have z: "(0::nat) \<le> target" by simp
  note bs0 = binarySearch_siblings[OF sh run ext assms(3) False z]
  have bs: "if target \<le> extent h (preorder_forest ts)
         then \<exists>i r. binarySearch fuel h rts target = Some (i, Some r) \<and>
                r \<in> set (preorder_forest ts) \<and> pos_of h r \<le> target \<and>
                target \<le> pos_of h r + len_of h r
         else binarySearch fuel h rts target = Some (0, None)"
    using bs0 unfolding rts by simp
  show ?thesis
  proof (cases "target \<le> extent h (preorder_forest ts)")
    case True
    with bs have "\<exists>i r. binarySearch fuel h rts target = Some (i, Some r) \<and>
                r \<in> set (preorder_forest ts) \<and> pos_of h r \<le> target \<and>
                target \<le> pos_of h r + len_of h r" by simp
    then obtain i r where
      b: "binarySearch fuel h rts target = Some (i, Some r)"
      and r: "r \<in> set (preorder_forest ts)" "pos_of h r \<le> target" "target \<le> pos_of h r + len_of h r"
      by (elim exE conjE)
    have u: "\<forall>n\<in>set (preorder_forest ts).
               pos_of h n < target \<and> target < pos_of h n + len_of h n \<longrightarrow> Some r = Some n"
    proof (intro ballI impI)
      fix n assume n: "n \<in> set (preorder_forest ts)"
        and "pos_of h n < target \<and> target < pos_of h n + len_of h n"
      then have "pos_of h n < target" "target < pos_of h n + len_of h n" by simp_all
      from running_unique[OF run r(1) n r(2,3) this] show "Some r = Some n" by simp
    qed
    have c2: "(Some r = None) = (rts = [] \<or> extent h (preorder_forest ts) < target)"
      using ne True by simp
    have c3: "\<forall>n. Some r = Some n \<longrightarrow> n \<in> set (preorder_forest ts) \<and> pos_of h n \<le> target \<and>
                  target \<le> pos_of h n + len_of h n"
      using r by simp
    show ?thesis
      by (rule exI[of _ i], rule exI[of _ "Some r"]) (intro conjI b c2 c3 u)
  next
    case F2: False
    with bs have b: "binarySearch fuel h rts target = Some (0, None)" by simp
    have "\<not> (pos_of h n < target \<and> target < pos_of h n + len_of h n)"
      if n: "n \<in> set (preorder_forest ts)" for n
    proof -
      from n obtain j where j: "j < length (preorder_forest ts)" "preorder_forest ts ! j = n"
        by (auto simp: in_set_conv_nth)
      have "take (Suc j) (preorder_forest ts) = take j (preorder_forest ts) @ [n]"
        using j by (simp add: take_Suc_conv_app_nth)
      then have "extent h (take (Suc j) (preorder_forest ts)) = extent h (take j (preorder_forest ts)) + len_of h n"
        by (simp add: extent_def)
      moreover have "extent h (take (Suc j) (preorder_forest ts)) \<le> extent h (preorder_forest ts)"
        by (rule extent_take_le)
      ultimately show ?thesis using running_nth[OF run j(1)] j(2) F2 by simp
    qed
    then have c4: "\<forall>n\<in>set (preorder_forest ts).
               pos_of h n < target \<and> target < pos_of h n + len_of h n \<longrightarrow> None = Some n"
      by blast
    have c2: "(None = (None :: nat option)) = (rts = [] \<or> extent h (preorder_forest ts) < target)"
      using F2 by simp
    have c3: "\<forall>n. (None :: nat option) = Some n \<longrightarrow> n \<in> set (preorder_forest ts) \<and> pos_of h n \<le> target \<and>
                  target \<le> pos_of h n + len_of h n"
      by simp
    show ?thesis
      by (rule exI[of _ 0], rule exI[of _ None]) (intro conjI b c2 c3 c4)
  qed
qed

theorem binarySearch_correct_witness:
  "shaped_forest ex_heap [1, 4] ex_forest \<and> well_indexed ex_heap ex_forest \<and>
   height_forest ex_forest < 3 \<and>
   (\<exists>i. binarySearch 3 ex_heap [1, 4] 15 = Some (i, Some 2)) \<and>
   (\<exists>i. binarySearch 3 ex_heap [1, 4] 41 = Some (i, None))"
proof -
  have a: "shaped_forest ex_heap [1, 4] ex_forest"
    by (simp add: shaped_forest_def ex_heap_def ex_forest_def ex_node_def)
  have b: "well_indexed ex_heap ex_forest"
    by (simp add: well_indexed_def preorder_forest_def ex_forest_def extent_def pos_of_def
          len_of_def ex_heap_def ex_node_def)
  have c: "height_forest ex_forest < 3"
    by (simp add: height_forest_def ex_forest_def)
  have ns: "preorder_forest ex_forest = [1, 2, 3, 4]"
    by (simp add: preorder_forest_def ex_forest_def)
  have e: "extent ex_heap [1, 2, 3, 4] = 40"
    by (simp add: extent_def len_of_def ex_heap_def ex_node_def)
  have p2: "pos_of ex_heap 2 < 15 \<and> 15 < pos_of ex_heap 2 + len_of ex_heap 2"
    by (simp add: pos_of_def len_of_def ex_heap_def ex_node_def)
  from binarySearch_correct[OF a b c, of 15] obtain i r where
    r: "binarySearch 3 ex_heap [1, 4] 15 = Some (i, r)"
    and u: "\<forall>n\<in>set (preorder_forest ex_forest).
               pos_of ex_heap n < 15 \<and> 15 < pos_of ex_heap n + len_of ex_heap n \<longrightarrow> r = Some n"
    by (elim exE conjE)
  have "(2::nat) \<in> set (preorder_forest ex_forest)" by (simp add: ns)
  with u p2 have "r = Some 2" by blast
  with r have A: "\<exists>i. binarySearch 3 ex_heap [1, 4] 15 = Some (i, Some 2)" by blast
  from binarySearch_correct[OF a b c, of 41] obtain j q where
    q: "binarySearch 3 ex_heap [1, 4] 41 = Some (j, q)"
    and n: "(q = None) = ([1, 4] = ([] :: nat list) \<or> extent ex_heap (preorder_forest ex_forest) < 41)"
    by (elim exE conjE)
  have "q = None" using n unfolding ns e by simp
  with q have B: "\<exists>i. binarySearch 3 ex_heap [1, 4] 41 = Some (i, None)" by blast
  show ?thesis using a b c A B by simp
qed

end
